theory Spec2Isabelle
  imports Complex_Main
begin

section \<open>Documents, files and the calls into the PDF library\<close>

text \<open>
  The module \<^verbatim>\<open>backend/pdf_functions.py\<close> is a set of independent functions, each of
  which opens PDF files, edits page sequences through PyMuPDF and saves the result.
  A document is the list of its pages. A page carries an identifier of its original
  content (none for a page the library creates blank), its unrotated box, its rotation
  and whatever the module has drawn over it.
  Lengths and coordinates are rational numbers and their arithmetic is exact: the sums,
  products and quotients below are those the code writes, without the rounding that
  Python's floats add to them.
  The calls into the library are modelled by their documented effect on the page list,
  together with what they refuse: an index that is not a page, a save of a document
  without pages, a save over the file the document was opened from, a drawing into an
  empty rectangle or of a page without contents each raise, as the library does.
\<close>

type_synonym point = "rat \<times> rat"

type_synonym rect = "rat \<times> rat \<times> rat \<times> rat"

datatype page =
    Page (content: "nat option") (box_width: rat) (box_height: rat) (page_rotation: int)
         (drawn: "drawing list")
and drawing =
    InsertedText point string rat "rat \<times> rat \<times> rat"
  | ShownPage rect page

type_synonym document = "page list"

text \<open>\<^verbatim>\<open>page.rect\<close>: the page rectangle as the library reports it, with the rotation
  taken into account.\<close>

definition rect_width :: "page \<Rightarrow> rat" where
  "rect_width p = (if page_rotation p mod 180 = 90 then box_height p else box_width p)"

definition rect_height :: "page \<Rightarrow> rat" where
  "rect_height p = (if page_rotation p mod 180 = 90 then box_width p else box_height p)"

text \<open>The keyword arguments of \<^verbatim>\<open>Document.save\<close> that the module sets; the library's
  defaults are those of \<open>default_save\<close>.\<close>

record save_opts =
  garbage :: nat
  deflate :: bool
  deflate_images :: bool
  deflate_fonts :: bool
  clean :: bool

definition default_save :: save_opts where
  "default_save =
     \<lparr>garbage = 0, deflate = False, deflate_images = False, deflate_fonts = False,
      clean = False\<rparr>"

text \<open>A PDF file is recorded as the document that was handed to \<^verbatim>\<open>Document.save\<close> and the
  options of that save. What the options do to the bytes of the file is the library's
  business and is not described here.\<close>

record pdf_file =
  doc :: document
  saved_with :: save_opts

datatype error =
    ValueError string
  | IndexError
  | TypeError
  | ZeroDivisionError
  | KeyError string
  | FileNotFoundError string
  | FileExistsError string
  | OSError string
  | Unmodelled string

text \<open>
  The disk, and the order in which a call touches it. Whether the operating system lets
  a process create a folder or write a file depends on permissions, on the directories
  that exist, on the length of names and more; none of that is computed here. The world
  carries the system's answer instead: \<open>os_mkdir w folder\<close> and \<open>os_write w path\<close> are the
  error with which the system refuses the request, if it does.
\<close>

datatype event = Opened string | MadeDirs string | Saved string

record world =
  files :: "string \<rightharpoonup> pdf_file"
  events :: "event list"
  os_mkdir :: "string \<Rightarrow> error option"
  os_write :: "string \<Rightarrow> error option"

text \<open>\<^verbatim>\<open>fitz.open(path)\<close>: the attempt is logged; a missing file raises. The library takes
  an empty file name as no file name, and gives a new document without pages.\<close>

definition fitz_open :: "world \<Rightarrow> string \<Rightarrow> (error + document) \<times> world" where
  "fitz_open w path =
     (if path = [] then Inr []
      else case files w path of
             None \<Rightarrow> Inl (FileNotFoundError path)
           | Some f \<Rightarrow> Inr (doc f),
      w\<lparr>events := events w @ [Opened path]\<rparr>)"

text \<open>A file written: the file at \<open>path\<close> is replaced.\<close>

definition store :: "world \<Rightarrow> string \<Rightarrow> document \<Rightarrow> save_opts \<Rightarrow> world" where
  "store w path d opts =
     w\<lparr>files := (files w)(path \<mapsto> \<lparr>doc = d, saved_with = opts\<rparr>),
       events := events w @ [Saved path]\<rparr>"

text \<open>
  \<^verbatim>\<open>doc.save(path, **opts)\<close>, where \<open>name\<close> is \<^verbatim>\<open>doc.name\<close>: the path the document was
  opened from, and the empty string for a document made by \<^verbatim>\<open>fitz.open()\<close>. None of the
  module's saves is incremental, so the library refuses, in this order, a path equal to
  the name and a document without pages; then the operating system has its say.
\<close>

definition doc_save ::
  "world \<Rightarrow> string \<Rightarrow> string \<Rightarrow> document \<Rightarrow> save_opts \<Rightarrow> (error + unit) \<times> world"
where
  "doc_save w name path d opts =
     (if path = name then (Inl (ValueError ''save to original must be incremental''), w)
      else if d = [] then (Inl (ValueError ''cannot save with zero pages''), w)
      else case os_write w path of
             Some e \<Rightarrow> (Inl e, w)
           | None \<Rightarrow> (Inr (), store w path d opts))"

text \<open>\<^verbatim>\<open>os.makedirs(folder, exist_ok=True)\<close> creates directories, never a file. An empty
  path raises, and so does a path that is a file; then the operating system has its
  say.\<close>

definition makedirs :: "world \<Rightarrow> string \<Rightarrow> (error + unit) \<times> world" where
  "makedirs w folder =
     (if folder = [] then (Inl (FileNotFoundError folder), w)
      else if files w folder \<noteq> None then (Inl (FileExistsError folder), w)
      else case os_mkdir w folder of
             Some e \<Rightarrow> (Inl e, w)
           | None \<Rightarrow> (Inr (), w\<lparr>events := events w @ [MadeDirs folder]\<rparr>))"

text \<open>The paths a call has saved to, in order.\<close>

fun saved_paths :: "event list \<Rightarrow> string list" where
  "saved_paths [] = []"
| "saved_paths (Saved p # es) = p # saved_paths es"
| "saved_paths (_ # es) = saved_paths es"

text \<open>
  \<^verbatim>\<open>Document.insert_pdf(src, from_page, to_page)\<close> appends the pages \<open>from_page\<close> to
  \<open>to_page\<close> of \<open>src\<close>, both inclusive. The library clamps both numbers to the source,
  reads a negative \<open>to_page\<close> (the default, -1) as the last page and a negative
  \<open>from_page\<close> as the first, and copies backwards when \<open>from_page\<close> exceeds \<open>to_page\<close>.
\<close>

definition page_span :: "document \<Rightarrow> int \<Rightarrow> int \<Rightarrow> document" where
  "page_span src from_page to_page =
     (let n = int (length src);
          fp = min (max from_page 0) (n - 1);
          tp = min (if to_page < 0 then n - 1 else to_page) (n - 1)
      in if n = 0 then []
         else if fp \<le> tp then take (nat (tp - fp + 1)) (drop (nat fp) src)
         else rev (take (nat (fp - tp + 1)) (drop (nat tp) src)))"

definition insert_pdf :: "document \<Rightarrow> document \<Rightarrow> int \<Rightarrow> int \<Rightarrow> document" where
  "insert_pdf d src from_page to_page = d @ page_span src from_page to_page"

section \<open>Python's strings and ranges\<close>

definition digit_char :: "nat \<Rightarrow> char" where
  "digit_char d = ''0123456789'' ! d"

fun str_nat :: "nat \<Rightarrow> string" where
  "str_nat n = (if n < 10 then [digit_char n] else str_nat (n div 10) @ [digit_char (n mod 10)])"

declare str_nat.simps [simp del]

text \<open>\<^verbatim>\<open>str(i)\<close>, as an f-string prints an integer.\<close>

definition str_int :: "int \<Rightarrow> string" where
  "str_int i = (if i < 0 then CHR ''-'' # str_nat (nat (- i)) else str_nat (nat i))"

text \<open>\<^verbatim>\<open>range(i, n, step)\<close> for a positive step.\<close>

function range_from :: "nat \<Rightarrow> nat \<Rightarrow> nat \<Rightarrow> nat list" where
  "range_from i n step =
     (if 0 < step \<and> i < n then i # range_from (i + step) n step else [])"
  by pat_completeness auto
termination
  by (relation "measure (\<lambda>(i, n, step). n - i)") auto

declare range_from.simps [simp del]

text \<open>\<^verbatim>\<open>range(0, n, step)\<close>: a zero step raises, a negative one gives nothing.\<close>

definition py_range :: "nat \<Rightarrow> int \<Rightarrow> error + nat list" where
  "py_range n step =
     (if step = 0 then Inl (ValueError ''range() arg 3 must not be zero'')
      else if step < 0 then Inr []
      else Inr (range_from 0 n (nat step)))"

text \<open>\<^verbatim>\<open>os.path.join\<close>, \<^verbatim>\<open>os.path.basename\<close> and the root of \<^verbatim>\<open>os.path.splitext\<close>
  on POSIX paths, for a second component that is not absolute.\<close>

definition path_join :: "string \<Rightarrow> string \<Rightarrow> string" where
  "path_join a b = (if a = [] \<or> last a = CHR ''/'' then a @ b else a @ ''/'' @ b)"

definition basename :: "string \<Rightarrow> string" where
  "basename p = rev (takeWhile (\<lambda>c. c \<noteq> CHR ''/'') (rev p))"

definition splitext_root :: "string \<Rightarrow> string" where
  "splitext_root name =
     (let lead = takeWhile (\<lambda>c. c = CHR ''.'') name;
          rest = dropWhile (\<lambda>c. c = CHR ''.'') name
      in if CHR ''.'' \<in> set rest
         then lead @ rev (tl (dropWhile (\<lambda>c. c \<noteq> CHR ''.'') (rev rest)))
         else name)"

section \<open>merge_pdfs\<close>

fun merge_loop :: "world \<Rightarrow> document \<Rightarrow> string list \<Rightarrow> (error + document) \<times> world" where
  "merge_loop w d [] = (Inr d, w)"
| "merge_loop w d (input_pdf # rest) =
     (case fitz_open w input_pdf of
        (Inl e, w') \<Rightarrow> (Inl e, w')
      | (Inr src, w') \<Rightarrow> merge_loop w' (insert_pdf d src (- 1) (- 1)) rest)"

definition merge_pdfs :: "world \<Rightarrow> string list \<Rightarrow> string \<Rightarrow> (error + unit) \<times> world" where
  "merge_pdfs w input_pdfs output_pdf =
     (case merge_loop w [] input_pdfs of
        (Inl e, w') \<Rightarrow> (Inl e, w')
      | (Inr d, w') \<Rightarrow> doc_save w' [] output_pdf d default_save)"

section \<open>split_pdf\<close>

text \<open>The apostrophe of the messages.\<close>

definition apos :: string where
  "apos = [CHR 0x27]"

fun split_pages_loop ::
  "world \<Rightarrow> document \<Rightarrow> string \<Rightarrow> string \<Rightarrow> nat list \<Rightarrow> string list \<Rightarrow>
   (error + string list) \<times> world"
where
  "split_pages_loop w src output_folder base_name [] output_files = (Inr output_files, w)"
| "split_pages_loop w src output_folder base_name (page_num # rest) output_files =
     (let output_doc = insert_pdf [] src (int page_num) (int page_num);
          output_path =
            path_join output_folder (base_name @ ''_page_'' @ str_nat (page_num + 1) @ ''.pdf'')
      in case doc_save w [] output_path output_doc default_save of
           (Inl e, w') \<Rightarrow> (Inl e, w')
         | (Inr _, w') \<Rightarrow>
             split_pages_loop w' src output_folder base_name rest
               (output_files @ [output_path]))"

fun split_chunks_loop ::
  "world \<Rightarrow> document \<Rightarrow> string \<Rightarrow> string \<Rightarrow> int \<Rightarrow> nat list \<Rightarrow> nat \<Rightarrow> string list \<Rightarrow>
   (error + string list) \<times> world"
where
  "split_chunks_loop w src output_folder base_name pages_per_split [] chunk_num output_files =
     (Inr output_files, w)"
| "split_chunks_loop w src output_folder base_name pages_per_split (start_page # rest)
     chunk_num output_files =
     (let end_page = min (int start_page + pages_per_split - 1) (int (length src) - 1);
          output_doc = insert_pdf [] src (int start_page) end_page;
          output_path =
            path_join output_folder (base_name @ ''_chunk_'' @ str_nat chunk_num @ ''.pdf'')
      in case doc_save w [] output_path output_doc default_save of
           (Inl e, w') \<Rightarrow> (Inl e, w')
         | (Inr _, w') \<Rightarrow>
             split_chunks_loop w' src output_folder base_name pages_per_split rest
               (chunk_num + 1) (output_files @ [output_path]))"

definition invalid_range_msg :: "int \<Rightarrow> int \<Rightarrow> nat \<Rightarrow> string" where
  "invalid_range_msg start end' total_pages =
     ''Invalid range ('' @ str_int start @ '', '' @ str_int end' @ ''). PDF has '' @
     str_nat total_pages @ '' pages (0-'' @ str_int (int total_pages - 1) @ '')''"

fun split_range_loop ::
  "world \<Rightarrow> document \<Rightarrow> string \<Rightarrow> string \<Rightarrow> (nat \<times> int \<times> int) list \<Rightarrow> string list \<Rightarrow>
   (error + string list) \<times> world"
where
  "split_range_loop w src output_folder base_name [] output_files = (Inr output_files, w)"
| "split_range_loop w src output_folder base_name ((idx, start, end') # rest) output_files =
     (if start < 0 \<or> end' \<ge> int (length src)
      then (Inl (ValueError (invalid_range_msg start end' (length src))), w)
      else
        let output_doc = insert_pdf [] src start end';
            output_path =
              path_join output_folder (base_name @ ''_range_'' @ str_nat idx @ ''.pdf'')
        in case doc_save w [] output_path output_doc default_save of
             (Inl e, w') \<Rightarrow> (Inl e, w')
           | (Inr _, w') \<Rightarrow>
               split_range_loop w' src output_folder base_name rest
                 (output_files @ [output_path]))"

definition missing_ranges_msg :: string where
  "missing_ranges_msg = ''page_ranges must be provided when mode='' @ apos @ ''range'' @ apos"

definition invalid_mode_msg :: "string \<Rightarrow> string" where
  "invalid_mode_msg mode =
     ''Invalid mode '' @ apos @ mode @ apos @ ''. Must be '' @ apos @ ''pages'' @ apos @
     '', '' @ apos @ ''chunks'' @ apos @ '', or '' @ apos @ ''range'' @ apos"

definition split_pdf ::
  "world \<Rightarrow> string \<Rightarrow> string \<Rightarrow> string \<Rightarrow> int \<Rightarrow> (int \<times> int) list option \<Rightarrow>
   (error + string list) \<times> world"
where
  "split_pdf w input_pdf output_folder mode pages_per_split page_ranges =
     (case fitz_open w input_pdf of
        (Inl e, w1) \<Rightarrow> (Inl e, w1)
      | (Inr src, w1) \<Rightarrow>
          let total_pages = length src;
              base_name = splitext_root (basename input_pdf)
          in (case makedirs w1 output_folder of
                (Inl e, w2) \<Rightarrow> (Inl e, w2)
              | (Inr _, w2) \<Rightarrow>
                  if mode = ''pages'' then
                    split_pages_loop w2 src output_folder base_name [0..<total_pages] []
                  else if mode = ''chunks'' then
                    (case py_range total_pages pages_per_split of
                       Inl e \<Rightarrow> (Inl e, w2)
                     | Inr starts \<Rightarrow>
                         split_chunks_loop w2 src output_folder base_name pages_per_split
                           starts 1 [])
                  else if mode = ''range'' then
                    (case page_ranges of
                       None \<Rightarrow> (Inl (ValueError missing_ranges_msg), w2)
                     | Some [] \<Rightarrow> (Inl (ValueError missing_ranges_msg), w2)
                     | Some rs \<Rightarrow>
                         split_range_loop w2 src output_folder base_name
                           (List.enumerate 1 rs) [])
                  else (Inl (ValueError (invalid_mode_msg mode)), w2)))"

section \<open>Page numbers given by the caller\<close>

text \<open>The loop that \<^verbatim>\<open>delete_pages\<close>, \<^verbatim>\<open>rotate_pages\<close> and \<^verbatim>\<open>add_page_numbers\<close> each
  run over the 0-based numbers before they touch the document.\<close>

definition invalid_page_msg :: "int \<Rightarrow> nat \<Rightarrow> string" where
  "invalid_page_msg page_num total_pages =
     ''Invalid page number: '' @ str_int (page_num + 1) @ ''. PDF has '' @
     str_nat total_pages @ '' pages''"

fun validate_pages :: "int list \<Rightarrow> nat \<Rightarrow> error + unit" where
  "validate_pages [] total_pages = Inr ()"
| "validate_pages (page_num # rest) total_pages =
     (if page_num < 0 \<or> page_num \<ge> int total_pages
      then Inl (ValueError (invalid_page_msg page_num total_pages))
      else validate_pages rest total_pages)"

text \<open>The \<open>pages\<close> argument is a string or a list of 1-based numbers.\<close>

datatype pages_arg = PStr string | PList "int list"

text \<open>\<^verbatim>\<open>[p - 1 for p in pages]\<close>: a character of a string has no difference with 1,
  and an empty string has no character.\<close>

definition zero_based :: "pages_arg \<Rightarrow> error + int list" where
  "zero_based pages =
     (case pages of
        PList ps \<Rightarrow> Inr (map (\<lambda>p. p - 1) ps)
      | PStr s \<Rightarrow> if s = [] then Inr [] else Inl TypeError)"

section \<open>delete_pages\<close>

text \<open>\<^verbatim>\<open>Document.delete_page(pno)\<close>, for the numbers the module passes (they have
  passed \<open>validate_pages\<close>, so none is negative): a number that is not a page of the
  document raises.\<close>

definition delete_page :: "document \<Rightarrow> int \<Rightarrow> error + document" where
  "delete_page d pno =
     (if 0 \<le> pno \<and> pno < int (length d)
      then Inr (take (nat pno) d @ drop (Suc (nat pno)) d)
      else Inl (ValueError ''bad page number(s)''))"

fun delete_loop :: "document \<Rightarrow> int list \<Rightarrow> error + document" where
  "delete_loop d [] = Inr d"
| "delete_loop d (page_num # rest) =
     (case delete_page d page_num of
        Inl e \<Rightarrow> Inl e
      | Inr d' \<Rightarrow> delete_loop d' rest)"

definition delete_pages :: "world \<Rightarrow> string \<Rightarrow> string \<Rightarrow> int list \<Rightarrow> (error + unit) \<times> world" where
  "delete_pages w input_pdf output_pdf pages_to_delete =
     (case fitz_open w input_pdf of
        (Inl e, w1) \<Rightarrow> (Inl e, w1)
      | (Inr d, w1) \<Rightarrow>
          let pages_to_delete_sorted = rev (sort (map (\<lambda>p. p - 1) pages_to_delete))
          in (case validate_pages pages_to_delete_sorted (length d) of
                Inl e \<Rightarrow> (Inl e, w1)
              | Inr _ \<Rightarrow>
                  (case delete_loop d pages_to_delete_sorted of
                     Inl e \<Rightarrow> (Inl e, w1)
                   | Inr d' \<Rightarrow> doc_save w1 input_pdf output_pdf d' default_save)))"

section \<open>rotate_pages\<close>

text \<open>\<^verbatim>\<open>Page.set_rotation\<close> stores a multiple of 90 as one of 0, 90, 180, 270.\<close>

definition set_rotation :: "int \<Rightarrow> page \<Rightarrow> page" where
  "set_rotation r p = Page (content p) (box_width p) (box_height p) (r mod 360) (drawn p)"

definition select_pages_to_rotate :: "nat \<Rightarrow> pages_arg \<Rightarrow> error + int list" where
  "select_pages_to_rotate total_pages pages =
     (if pages = PStr ''all'' then Inr (map int [0..<total_pages])
      else if pages = PStr ''even'' then
        Inr (map int (filter (\<lambda>i. (i + 1) mod 2 = 0) [0..<total_pages]))
      else if pages = PStr ''odd'' then
        Inr (map int (filter (\<lambda>i. (i + 1) mod 2 = 1) [0..<total_pages]))
      else
        (case zero_based pages of
           Inl e \<Rightarrow> Inl e
         | Inr pages_to_rotate \<Rightarrow>
             (case validate_pages pages_to_rotate total_pages of
                Inl e \<Rightarrow> Inl e
              | Inr _ \<Rightarrow> Inr pages_to_rotate)))"

text \<open>\<^verbatim>\<open>doc[page_num]\<close> followed by \<^verbatim>\<open>page.set_rotation(rotation)\<close>; the numbers are
  those of \<open>select_pages_to_rotate\<close>, all pages of the document.\<close>

fun rotate_loop :: "document \<Rightarrow> int \<Rightarrow> int list \<Rightarrow> error + document" where
  "rotate_loop d rotation [] = Inr d"
| "rotate_loop d rotation (page_num # rest) =
     (if 0 \<le> page_num \<and> page_num < int (length d)
      then rotate_loop (d[nat page_num := set_rotation rotation (d ! nat page_num)]) rotation rest
      else Inl IndexError)"

definition rotation_msg :: string where
  "rotation_msg = ''Rotation must be 90, 180, 270, -90, -180, or -270 degrees''"

definition rotate_pages ::
  "world \<Rightarrow> string \<Rightarrow> string \<Rightarrow> int \<Rightarrow> pages_arg \<Rightarrow> (error + unit) \<times> world"
where
  "rotate_pages w input_pdf output_pdf rotation pages =
     (if rotation \<notin> set [90, 180, 270, - 90, - 180, - 270]
      then (Inl (ValueError rotation_msg), w)
      else
        (case fitz_open w input_pdf of
           (Inl e, w1) \<Rightarrow> (Inl e, w1)
         | (Inr d, w1) \<Rightarrow>
             (case select_pages_to_rotate (length d) pages of
                Inl e \<Rightarrow> (Inl e, w1)
              | Inr pages_to_rotate \<Rightarrow>
                  (case rotate_loop d rotation pages_to_rotate of
                     Inl e \<Rightarrow> (Inl e, w1)
                   | Inr d' \<Rightarrow> doc_save w1 input_pdf output_pdf d' default_save))))"

section \<open>compress_pdf\<close>

definition compression_settings :: "string \<rightharpoonup> save_opts" where
  "compression_settings =
     [''low'' \<mapsto>
        \<lparr>garbage = 1, deflate = True, deflate_images = False, deflate_fonts = False,
         clean = False\<rparr>,
      ''medium'' \<mapsto>
        \<lparr>garbage = 3, deflate = True, deflate_images = True, deflate_fonts = True,
         clean = False\<rparr>,
      ''high'' \<mapsto>
        \<lparr>garbage = 4, deflate = True, deflate_images = True, deflate_fonts = True,
         clean = True\<rparr>]"

definition compression_msg :: string where
  "compression_msg =
     ''compression_level must be '' @ apos @ ''low'' @ apos @ '', '' @ apos @ ''medium'' @
     apos @ '', or '' @ apos @ ''high'' @ apos"

definition compress_pdf :: "world \<Rightarrow> string \<Rightarrow> string \<Rightarrow> string \<Rightarrow> (error + unit) \<times> world" where
  "compress_pdf w input_pdf output_pdf compression_level =
     (case compression_settings compression_level of
        None \<Rightarrow> (Inl (ValueError compression_msg), w)
      | Some settings \<Rightarrow>
          (case fitz_open w input_pdf of
             (Inl e, w1) \<Rightarrow> (Inl e, w1)
           | (Inr d, w1) \<Rightarrow> doc_save w1 input_pdf output_pdf d settings))"

section \<open>add_page_numbers\<close>

text \<open>
  \<^verbatim>\<open>format_string.format(page=..., total=...)\<close> is a built-in of Python with a language of
  its own (conversions, format specifications, attribute and index access). The module
  only calls it, so the functions below take it as a parameter \<open>format\<close>, from a format
  string and the keyword arguments to the text or the exception.

  \<open>plain_format\<close> is that built-in on the format strings whose replacement fields are
  plain names: \<^verbatim>\<open>{{\<close> and \<^verbatim>\<open>}}\<close> are literal braces, a field is replaced by the decimal
  value of its keyword, a name that is no keyword raises KeyError, an empty or numeric
  name asks for a positional argument and raises IndexError, and unbalanced braces raise
  ValueError. A field with any character other than a letter, a digit or an underscore
  is outside this part of the language, and the answer is \<open>Unmodelled\<close>, which is no
  exception of Python. In \<open>format_scan\<close> the second argument is the field being read, its
  characters in reverse.
\<close>

definition name_char :: "char \<Rightarrow> bool" where
  "name_char c =
     (let k = (of_char c :: nat)
      in (48 \<le> k \<and> k \<le> 57) \<or> (65 \<le> k \<and> k \<le> 90) \<or> (97 \<le> k \<and> k \<le> 122) \<or> k = 95)"

definition lookup_field :: "string \<Rightarrow> (string \<times> int) list \<Rightarrow> error + string" where
  "lookup_field name kwargs =
     (if \<not> list_all name_char name then Inl (Unmodelled name)
      else if list_all (\<lambda>c. c \<in> set ''0123456789'') name then Inl IndexError
      else case map_of kwargs name of
             None \<Rightarrow> Inl (KeyError name)
           | Some v \<Rightarrow> Inr (str_int v))"

definition then_append :: "error + string \<Rightarrow> error + string \<Rightarrow> error + string" where
  "then_append a b =
     (case a of
        Inl e \<Rightarrow> Inl e
      | Inr s \<Rightarrow> (case b of Inl e \<Rightarrow> Inl e | Inr t \<Rightarrow> Inr (s @ t)))"

fun format_scan :: "string \<Rightarrow> string option \<Rightarrow> (string \<times> int) list \<Rightarrow> error + string" where
  "format_scan [] None kwargs = Inr []"
| "format_scan [] (Some field) kwargs =
     Inl (ValueError (''expected '' @ apos @ ''}'' @ apos @ '' before end of string''))"
| "format_scan (c # rest) (Some field) kwargs =
     (if c = CHR ''}'' then
        then_append (lookup_field (rev field) kwargs) (format_scan rest None kwargs)
      else if c = CHR ''{'' then
        Inl (ValueError (''unexpected '' @ apos @ ''{'' @ apos @ '' in field name''))
      else format_scan rest (Some (c # field)) kwargs)"
| "format_scan (c # rest) None kwargs =
     (if c = CHR ''{'' then
        (case rest of
           [] \<Rightarrow>
             Inl (ValueError (''Single '' @ apos @ ''{'' @ apos @ '' encountered in format string''))
         | c' # rest' \<Rightarrow>
             if c' = CHR ''{'' then then_append (Inr ''{'') (format_scan rest' None kwargs)
             else format_scan rest (Some []) kwargs)
      else if c = CHR ''}'' then
        (case rest of
           [] \<Rightarrow>
             Inl (ValueError (''Single '' @ apos @ ''}'' @ apos @ '' encountered in format string''))
         | c' # rest' \<Rightarrow>
             if c' = CHR ''}'' then then_append (Inr ''}'') (format_scan rest' None kwargs)
             else
               Inl (ValueError
                     (''Single '' @ apos @ ''}'' @ apos @ '' encountered in format string'')))
      else then_append (Inr [c]) (format_scan rest None kwargs))"

definition plain_format :: "string \<Rightarrow> (string \<times> int) list \<Rightarrow> error + string" where
  "plain_format format_string kwargs = format_scan format_string None kwargs"

definition number_margin :: rat where
  "number_margin = 30"

definition number_point :: "string \<Rightarrow> page \<Rightarrow> error + point" where
  "number_point position page =
     (if position = ''bottom-right'' then
        Inr (rect_width page - number_margin, rect_height page - number_margin)
      else if position = ''bottom-center'' then
        Inr (rect_width page / 2, rect_height page - number_margin)
      else if position = ''bottom-left'' then
        Inr (number_margin, rect_height page - number_margin)
      else if position = ''top-right'' then
        Inr (rect_width page - number_margin, number_margin)
      else if position = ''top-center'' then
        Inr (rect_width page / 2, number_margin)
      else if position = ''top-left'' then
        Inr (number_margin, number_margin)
      else Inl (ValueError (''Invalid position: '' @ position)))"

text \<open>A page with one more text drawn on it.\<close>

definition stamped :: "page \<Rightarrow> point \<Rightarrow> string \<Rightarrow> rat \<Rightarrow> rat \<times> rat \<times> rat \<Rightarrow> page" where
  "stamped page point page_text font_size color =
     Page (content page) (box_width page) (box_height page) (page_rotation page)
          (drawn page @ [InsertedText point page_text font_size color])"

text \<open>
  \<^verbatim>\<open>page.insert_text(point, page_text, fontsize=font_size, color=color)\<close>, for a colour of
  three components. The library splits the text into lines and draws nothing, without
  an exception, when there is no character in them: for the empty text and for a text
  that is one line break. Otherwise it refuses a colour with a component outside the
  range from 0 to 1.
\<close>

definition line_breaks :: "string list" where
  "line_breaks =
     [[CHR 0x0A], [CHR 0x0D], [CHR 0x0D, CHR 0x0A], [CHR 0x0B], [CHR 0x0C], [CHR 0x1C],
      [CHR 0x1D], [CHR 0x1E], [CHR 0x85]]"

definition draws_nothing :: "string \<Rightarrow> bool" where
  "draws_nothing page_text = (page_text = [] \<or> page_text \<in> set line_breaks)"

definition color_in_range :: "rat \<times> rat \<times> rat \<Rightarrow> bool" where
  "color_in_range color = (case color of (r, g, b) \<Rightarrow> 0 \<le> min r (min g b) \<and> max r (max g b) \<le> 1)"

definition insert_text ::
  "page \<Rightarrow> point \<Rightarrow> string \<Rightarrow> rat \<Rightarrow> rat \<times> rat \<times> rat \<Rightarrow> error + page"
where
  "insert_text page point page_text font_size color =
     (if draws_nothing page_text then Inr page
      else if \<not> color_in_range color
      then Inl (ValueError ''need 1, 3 or 4 color components in range 0 to 1'')
      else Inr (stamped page point page_text font_size color))"

definition select_pages_to_number :: "nat \<Rightarrow> pages_arg \<Rightarrow> error + int list" where
  "select_pages_to_number total_pages pages =
     (if pages = PStr ''all'' then Inr (map int [0..<total_pages])
      else
        (case zero_based pages of
           Inl e \<Rightarrow> Inl e
         | Inr pages_to_number \<Rightarrow>
             (case validate_pages pages_to_number total_pages of
                Inl e \<Rightarrow> Inl e
              | Inr _ \<Rightarrow> Inr pages_to_number)))"

text \<open>The loop over \<^verbatim>\<open>enumerate(pages_to_number)\<close>; \<open>n\<close> is \<^verbatim>\<open>len(pages_to_number)\<close>.\<close>

type_synonym formatter = "string \<Rightarrow> (string \<times> int) list \<Rightarrow> error + string"

fun number_loop ::
  "formatter \<Rightarrow> document \<Rightarrow> string \<Rightarrow> rat \<Rightarrow> rat \<times> rat \<times> rat \<Rightarrow> string \<Rightarrow> int \<Rightarrow> nat \<Rightarrow>
   (nat \<times> int) list \<Rightarrow> error + document"
where
  "number_loop format d position font_size color format_string start_number n [] = Inr d"
| "number_loop format d position font_size color format_string start_number n
     ((idx, page_num) # rest) =
     (if 0 \<le> page_num \<and> page_num < int (length d) then
        let page = d ! nat page_num;
            current_page_num = start_number + int idx
        in case format format_string [(''page'', current_page_num), (''total'', int n)] of
             Inl e \<Rightarrow> Inl e
           | Inr page_text \<Rightarrow>
               (case number_point position page of
                  Inl e \<Rightarrow> Inl e
                | Inr point \<Rightarrow>
                    (case insert_text page point page_text font_size color of
                       Inl e \<Rightarrow> Inl e
                     | Inr page' \<Rightarrow>
                         number_loop format (d[nat page_num := page']) position font_size
                           color format_string start_number n rest))
      else Inl IndexError)"

definition add_page_numbers ::
  "formatter \<Rightarrow> world \<Rightarrow> string \<Rightarrow> string \<Rightarrow> string \<Rightarrow> rat \<Rightarrow> rat \<times> rat \<times> rat \<Rightarrow> string \<Rightarrow> int \<Rightarrow>
   pages_arg \<Rightarrow> (error + unit) \<times> world"
where
  "add_page_numbers format w input_pdf output_pdf position font_size color format_string
     start_number pages =
     (case fitz_open w input_pdf of
        (Inl e, w1) \<Rightarrow> (Inl e, w1)
      | (Inr d, w1) \<Rightarrow>
          (case select_pages_to_number (length d) pages of
             Inl e \<Rightarrow> (Inl e, w1)
           | Inr pages_to_number \<Rightarrow>
               (case number_loop format d position font_size color format_string start_number
                       (length pages_to_number) (List.enumerate 0 pages_to_number) of
                  Inl e \<Rightarrow> (Inl e, w1)
                | Inr d' \<Rightarrow> doc_save w1 input_pdf output_pdf d' default_save)))"

section \<open>create_nup\<close>

text \<open>\<^verbatim>\<open>str.lower\<close> on ASCII letters.\<close>

definition lower_char :: "char \<Rightarrow> char" where
  "lower_char c =
     (let k = (of_char c :: nat) in if 65 \<le> k \<and> k \<le> 90 then char_of (k + 32) else c)"

definition lower :: "string \<Rightarrow> string" where
  "lower s = map lower_char s"

definition margin :: int where
  "margin = 20"

definition page_spacing :: int where
  "page_spacing = 10"

text \<open>\<^verbatim>\<open>doc.new_page(width, height)\<close> makes a blank page, one without contents.\<close>

definition new_page :: "rat \<Rightarrow> rat \<Rightarrow> page" where
  "new_page width height = Page None width height 0 []"

text \<open>\<^verbatim>\<open>Rect.is_empty\<close>, and whether a page has contents: original ones, or something
  drawn on it.\<close>

definition rect_is_empty :: "rect \<Rightarrow> bool" where
  "rect_is_empty r = (case r of (x0, y0, x1, y1) \<Rightarrow> x0 \<ge> x1 \<or> y0 \<ge> y1)"

definition has_contents :: "page \<Rightarrow> bool" where
  "has_contents p = (content p \<noteq> None \<or> drawn p \<noteq> [])"

text \<open>\<^verbatim>\<open>page.show_pdf_page(rect, src, pno)\<close> draws page \<open>pno\<close> of \<open>src\<close> into \<open>rect\<close>, for a
  number \<open>pno\<close> that is a page of \<open>src\<close> (the module passes no other). The library
  refuses, in this order, an empty target rectangle, a source page without contents and
  a source page whose own rectangle is empty.\<close>

definition show_pdf_page :: "page \<Rightarrow> rect \<Rightarrow> document \<Rightarrow> nat \<Rightarrow> error + page" where
  "show_pdf_page page target_rect src pno =
     (if rect_is_empty target_rect then Inl (ValueError ''rect must be finite and not empty'')
      else if \<not> has_contents (src ! pno)
      then Inl (ValueError ''nothing to show - source page empty'')
      else if rect_width (src ! pno) \<le> 0 \<or> rect_height (src ! pno) \<le> 0
      then Inl (ValueError ''clip must be finite and not empty'')
      else Inr (Page (content page) (box_width page) (box_height page) (page_rotation page)
                  (drawn page @ [ShownPage target_rect (src ! pno)])))"

text \<open>The rectangle of the cell in row \<open>row\<close> and column \<open>col\<close>, as the loop computes
  it.\<close>

definition cell_rect :: "rat \<Rightarrow> rat \<Rightarrow> nat \<Rightarrow> nat \<Rightarrow> rect" where
  "cell_rect scaled_width scaled_height row col =
     (let x = of_int margin + of_nat col * (scaled_width + of_int page_spacing);
          y = of_int margin + of_nat row * (scaled_height + of_int page_spacing)
      in (x, y, x + scaled_width, y + scaled_height))"

text \<open>The loop over the columns of one row, which stops at the first source index past
  the end, and the loop over the rows of one sheet, which goes on to the next row.\<close>

fun nup_cols ::
  "document \<Rightarrow> page \<Rightarrow> nat \<Rightarrow> nat \<Rightarrow> int \<Rightarrow> rat \<Rightarrow> rat \<Rightarrow> nat list \<Rightarrow> error + page"
where
  "nup_cols src sheet i row n_cols scaled_width scaled_height [] = Inr sheet"
| "nup_cols src sheet i row n_cols scaled_width scaled_height (col # cols) =
     (let src_idx = int i + int row * n_cols + int col
      in if src_idx \<ge> int (length src) then Inr sheet
         else
           let target_rect = cell_rect scaled_width scaled_height row col
           in case show_pdf_page sheet target_rect src (nat src_idx) of
                Inl e \<Rightarrow> Inl e
              | Inr sheet' \<Rightarrow>
                  nup_cols src sheet' i row n_cols scaled_width scaled_height cols)"

fun nup_rows ::
  "document \<Rightarrow> page \<Rightarrow> nat \<Rightarrow> int \<Rightarrow> rat \<Rightarrow> rat \<Rightarrow> nat list \<Rightarrow> error + page"
where
  "nup_rows src sheet i n_cols scaled_width scaled_height [] = Inr sheet"
| "nup_rows src sheet i n_cols scaled_width scaled_height (row # rows) =
     (case nup_cols src sheet i row n_cols scaled_width scaled_height [0..<nat n_cols] of
        Inl e \<Rightarrow> Inl e
      | Inr sheet' \<Rightarrow> nup_rows src sheet' i n_cols scaled_width scaled_height rows)"

text \<open>The loop over the sheets: each starts as a new page of the output document.\<close>

fun nup_sheets ::
  "document \<Rightarrow> document \<Rightarrow> int \<Rightarrow> int \<Rightarrow> int \<Rightarrow> int \<Rightarrow> rat \<Rightarrow> rat \<Rightarrow> nat list \<Rightarrow>
   error + document"
where
  "nup_sheets src d page_width_total page_height_total n_cols n_rows scaled_width
     scaled_height [] = Inr d"
| "nup_sheets src d page_width_total page_height_total n_cols n_rows scaled_width
     scaled_height (i # starts) =
     (case nup_rows src (new_page (of_int page_width_total) (of_int page_height_total)) i
             n_cols scaled_width scaled_height [0..<nat n_rows] of
        Inl e \<Rightarrow> Inl e
      | Inr sheet \<Rightarrow>
          nup_sheets src (d @ [sheet]) page_width_total page_height_total n_cols n_rows
            scaled_width scaled_height starts)"

text \<open>The width and the height left for the cells, and the scale factor, from the
  rectangle of one source page.\<close>

definition available_width :: "int \<Rightarrow> int \<Rightarrow> int" where
  "available_width page_width_total n_cols =
     page_width_total - 2 * margin - (n_cols - 1) * page_spacing"

definition available_height :: "int \<Rightarrow> int \<Rightarrow> int" where
  "available_height page_height_total n_rows =
     page_height_total - 2 * margin - (n_rows - 1) * page_spacing"

definition nup_scale :: "int \<Rightarrow> int \<Rightarrow> int \<Rightarrow> int \<Rightarrow> page \<Rightarrow> rat" where
  "nup_scale page_width_total page_height_total n_cols n_rows first =
     (let page_width = of_int (available_width page_width_total n_cols) / of_int n_cols;
          page_height = of_int (available_height page_height_total n_rows) / of_int n_rows
      in min (page_width / rect_width first) (page_height / rect_height first))"

definition create_nup ::
  "world \<Rightarrow> string \<Rightarrow> string \<Rightarrow> int \<Rightarrow> int \<Rightarrow> string \<Rightarrow> (error + unit) \<times> world"
where
  "create_nup w input_pdf output_pdf n_cols n_rows orientation =
     (case fitz_open w input_pdf of
        (Inl e, w1) \<Rightarrow> (Inl e, w1)
      | (Inr src, w1) \<Rightarrow>
          let pages_per_sheet = n_cols * n_rows;
              page_width_total = (if lower orientation = ''landscape'' then 842 else 595);
              page_height_total = (if lower orientation = ''landscape'' then 595 else 842)
          in (case src of
                [] \<Rightarrow> (Inl IndexError, w1)
              | first # _ \<Rightarrow>
                  (if n_cols = 0 \<or> n_rows = 0 then (Inl ZeroDivisionError, w1)
                   else if rect_width first = 0 \<or> rect_height first = 0
                   then (Inl ZeroDivisionError, w1)
                   else
                     let scale =
                           nup_scale page_width_total page_height_total n_cols n_rows first;
                         scaled_width = rect_width first * scale;
                         scaled_height = rect_height first * scale
                     in (case py_range (length src) pages_per_sheet of
                           Inl e \<Rightarrow> (Inl e, w1)
                         | Inr starts \<Rightarrow>
                             (case nup_sheets src [] page_width_total page_height_total
                                     n_cols n_rows scaled_width scaled_height starts of
                                Inl e \<Rightarrow> (Inl e, w1)
                              | Inr d \<Rightarrow> doc_save w1 [] output_pdf d default_save)))))"

text \<open>
  The layout of one sheet, as a list: row by row and, in each row, column by column, the
  source pages from number \<open>i\<close> on, each in the rectangle of its cell, as far as the
  source goes.
\<close>

definition sheet_layout :: "document \<Rightarrow> rat \<Rightarrow> rat \<Rightarrow> nat \<Rightarrow> nat \<Rightarrow> nat \<Rightarrow> drawing list" where
  "sheet_layout src scaled_width scaled_height n_cols n_rows i =
     concat
       (map (\<lambda>row.
               map (\<lambda>col. ShownPage (cell_rect scaled_width scaled_height row col)
                             (src ! (i + row * n_cols + col)))
                 [0..<min n_cols (length src - (i + row * n_cols))])
          [0..<n_rows])"

section \<open>Sample documents\<close>

text \<open>An A4 page with original content \<open>k\<close>, a file as a plain save leaves it, and a disk
  that holds one file, under an operating system that refuses nothing.\<close>

definition a4_page :: "nat \<Rightarrow> page" where
  "a4_page k = Page (Some k) 595 842 0 []"

definition stored :: "document \<Rightarrow> pdf_file" where
  "stored d = \<lparr>doc = d, saved_with = default_save\<rparr>"

definition disk :: "string \<Rightarrow> document \<Rightarrow> world" where
  "disk path d =
     \<lparr>files = [path \<mapsto> stored d], events = [], os_mkdir = (\<lambda>_. None),
      os_write = (\<lambda>_. None)\<rparr>"

definition two_files :: world where
  "two_files =
     \<lparr>files = [''a.pdf'' \<mapsto> stored [a4_page 1, a4_page 2], ''b.pdf'' \<mapsto> stored [a4_page 3]],
      events = [], os_mkdir = (\<lambda>_. None), os_write = (\<lambda>_. None)\<rparr>"

section \<open>Facts about the library model\<close>

lemma page_span_all: "page_span src (- 1) (- 1) = src"
  by (cases "src = []") (simp_all add: page_span_def Let_def)

lemma fitz_open_file:
  "path \<noteq> [] \<Longrightarrow> files w path = Some f \<Longrightarrow>
   fitz_open w path = (Inr (doc f), w\<lparr>events := events w @ [Opened path]\<rparr>)"
  by (simp add: fitz_open_def)

lemma files_fitz_open: "files (snd (fitz_open w p)) = files w"
  by (simp add: fitz_open_def)

lemma events_fitz_open: "events (snd (fitz_open w p)) = events w @ [Opened p]"
  by (simp add: fitz_open_def)

lemma saved_paths_append: "saved_paths (xs @ ys) = saved_paths xs @ saved_paths ys"
  by (induction xs rule: saved_paths.induct) simp_all

lemma files_store: "files (store w path d opts) = (files w)(path \<mapsto> \<lparr>doc = d, saved_with = opts\<rparr>)"
  by (simp add: store_def)

lemma events_store: "events (store w path d opts) = events w @ [Saved path]"
  by (simp add: store_def)

lemma os_write_store: "os_write (store w path d opts) = os_write w"
  by (simp add: store_def)

lemma doc_save_ok:
  "path \<noteq> name \<Longrightarrow> d \<noteq> [] \<Longrightarrow> os_write w path = None \<Longrightarrow>
   doc_save w name path d opts = (Inr (), store w path d opts)"
  by (simp add: doc_save_def)

lemma doc_save_cases:
  "(\<exists>e. doc_save w name path d opts = (Inl e, w)) \<or>
   doc_save w name path d opts = (Inr (), store w path d opts)"
  by (cases "os_write w path") (simp_all add: doc_save_def)

lemma doc_save_same_path:
  "doc_save w path path d opts = (Inl (ValueError ''save to original must be incremental''), w)"
  by (simp add: doc_save_def)

lemma doc_save_Inl_world: "doc_save w name path d opts = (Inl e, w') \<Longrightarrow> w' = w"
  using doc_save_cases [of w name path d opts] by auto

lemma doc_save_Inr_world: "doc_save w name path d opts = (Inr u, w') \<Longrightarrow> w' = store w path d opts"
  using doc_save_cases [of w name path d opts] by auto

lemma makedirs_ok:
  "folder \<noteq> [] \<Longrightarrow> files w folder = None \<Longrightarrow> os_mkdir w folder = None \<Longrightarrow>
   makedirs w folder = (Inr (), w\<lparr>events := events w @ [MadeDirs folder]\<rparr>)"
  by (simp add: makedirs_def)

lemma makedirs_no_save:
  "files (snd (makedirs w folder)) = files w \<and>
   saved_paths (events (snd (makedirs w folder))) = saved_paths (events w)"
  by (cases "os_mkdir w folder") (simp_all add: makedirs_def saved_paths_append)

lemma validate_pages_ok:
  "\<forall>q\<in>set qs. 0 \<le> q \<and> q < int n \<Longrightarrow> validate_pages qs n = Inr ()"
  by (induction qs) auto

lemma merge_loop_ok:
  "map (files w) input_pdfs = map Some fls \<Longrightarrow> [] \<notin> set input_pdfs \<Longrightarrow>
   \<exists>w'. merge_loop w d input_pdfs = (Inr (d @ concat (map doc fls)), w') \<and>
        files w' = files w \<and> os_write w' = os_write w \<and>
        saved_paths (events w') = saved_paths (events w)"
proof (induction input_pdfs arbitrary: w d fls)
  case Nil
  then show ?case by simp
next
  case (Cons p ps)
  then obtain f fs where fls: "fls = f # fs" and f: "files w p = Some f"
    and rest: "map (files w) ps = map Some fs"
    by (cases fls) auto
  from Cons.prems have p: "p \<noteq> []" and ps: "[] \<notin> set ps" by auto
  let ?w1 = "w\<lparr>events := events w @ [Opened p]\<rparr>"
  have "map (files ?w1) ps = map Some fs" using rest by simp
  from Cons.IH [OF this ps, of "d @ doc f"]
  obtain w' where "merge_loop ?w1 (d @ doc f) ps = (Inr ((d @ doc f) @ concat (map doc fs)), w')"
    and "files w' = files ?w1" and "os_write w' = os_write ?w1"
    and "saved_paths (events w') = saved_paths (events ?w1)"
    by blast
  then show ?case
    using f fls p by (simp add: fitz_open_def insert_pdf_def page_span_all saved_paths_append)
qed

section \<open>merge_pdfs: the pages of the inputs, in list order\<close>

text \<open>
  C4, as the claim states it, at the empty list: the loop opens nothing, the new
  document has no page, and the save raises. No file is written.
\<close>

theorem merge_pdfs_empty_list_raises:
  "merge_pdfs (disk ''a.pdf'' [a4_page 1]) [] ''out.pdf'' =
     (Inl (ValueError ''cannot save with zero pages''), disk ''a.pdf'' [a4_page 1])"
  by (simp add: merge_pdfs_def doc_save_def)

text \<open>
  C4. For a list that is not empty, each path of which names a file with at least one
  page, and an output path that the operating system lets the call write, \<open>merge_pdfs\<close>
  saves exactly one document, at the output path. Its pages are the pages of the first
  input, then those of the second, and so on, so its page count is the sum of the page
  counts of the inputs.
\<close>

theorem merge_pdfs_concat:
  assumes "map (files w) input_pdfs = map Some fls"
    and "input_pdfs \<noteq> []"
    and "[] \<notin> set input_pdfs"
    and "\<forall>f\<in>set fls. doc f \<noteq> []"
    and "output_pdf \<noteq> []"
    and "os_write w output_pdf = None"
  shows "\<exists>w'. merge_pdfs w input_pdfs output_pdf = (Inr (), w') \<and>
           map_option doc (files w' output_pdf) = Some (concat (map doc fls)) \<and>
           length (concat (map doc fls)) = sum_list (map (length \<circ> doc) fls) \<and>
           saved_paths (events w') = saved_paths (events w) @ [output_pdf]"
proof -
  from merge_loop_ok [OF assms(1) assms(3), of "[]"]
  obtain w1 where loop: "merge_loop w [] input_pdfs = (Inr (concat (map doc fls)), w1)"
    and ev: "saved_paths (events w1) = saved_paths (events w)"
    and os: "os_write w1 = os_write w"
    by auto
  from assms(1,2) obtain f fs where fls: "fls = f # fs" by (cases fls) auto
  with assms(4) have ne: "concat (map doc fls) \<noteq> []" by simp
  have "doc_save w1 [] output_pdf (concat (map doc fls)) default_save =
          (Inr (), store w1 output_pdf (concat (map doc fls)) default_save)"
    using assms(5,6) os ne by (intro doc_save_ok) simp_all
  with loop ev show ?thesis
    by (simp add: merge_pdfs_def files_store events_store saved_paths_append length_concat
        comp_def)
qed

theorem merge_pdfs_concat_witness:
  "map (files two_files) [''a.pdf'', ''b.pdf''] =
     map Some [stored [a4_page 1, a4_page 2], stored [a4_page 3]] \<and>
   (\<exists>w'. merge_pdfs two_files [''a.pdf'', ''b.pdf''] ''out.pdf'' = (Inr (), w') \<and>
         map_option doc (files w' ''out.pdf'') = Some [a4_page 1, a4_page 2, a4_page 3] \<and>
         saved_paths (events w') = [''out.pdf''])"
proof -
  have h: "map (files two_files) [''a.pdf'', ''b.pdf''] =
           map Some [stored [a4_page 1, a4_page 2], stored [a4_page 3]]"
    by (simp add: two_files_def)
  from merge_pdfs_concat [OF h, of "''out.pdf''"] h show ?thesis
    by (simp add: stored_def two_files_def)
qed

section \<open>rotate_pages\<close>

lemma rotate_pages_opens:
  assumes "rotation \<in> set [90, 180, 270, - 90, - 180, - 270]"
  shows "\<exists>rest. events (snd (rotate_pages w input_pdf output_pdf rotation pages)) =
           events w @ Opened input_pdf # rest"
proof -
  let ?w1 = "snd (fitz_open w input_pdf)"
  have w1: "events ?w1 = events w @ [Opened input_pdf]" by (rule events_fitz_open)
  have sv: "\<exists>rest. events (snd (doc_save ?w1 input_pdf output_pdf d default_save)) =
              events w @ Opened input_pdf # rest" for d
    using doc_save_cases [of ?w1 input_pdf output_pdf d default_save] w1
    by (auto simp: events_store)
  show ?thesis
    using assms w1 sv
    by (auto simp: rotate_pages_def split: sum.splits prod.splits)
qed

text \<open>
  C7. \<open>rotate_pages\<close> raises the ValueError about the rotation, with the disk and the
  record of what was opened and saved left as they were, exactly when the rotation is
  none of 90, 180, 270, -90, -180, -270; for each of these six values the input file is
  opened first, whatever happens next. A rotation of 0 is rejected.
\<close>

theorem rotate_pages_rejects_rotation:
  "(rotate_pages w input_pdf output_pdf rotation pages = (Inl (ValueError rotation_msg), w)) =
     (rotation \<notin> set [90, 180, 270, - 90, - 180, - 270]) \<and>
   ((\<exists>m. fst (rotate_pages w input_pdf output_pdf rotation pages) = Inl (ValueError m) \<and>
         events (snd (rotate_pages w input_pdf output_pdf rotation pages)) = events w) =
     (rotation \<notin> set [90, 180, 270, - 90, - 180, - 270])) \<and>
   rotate_pages w input_pdf output_pdf 0 pages = (Inl (ValueError rotation_msg), w)"
proof -
  let ?R = "rotate_pages w input_pdf output_pdf rotation pages"
  have bad: "?R = (Inl (ValueError rotation_msg), w)"
    if "rotation \<notin> set [90, 180, 270, - 90, - 180, - 270]"
    using that by (simp add: rotate_pages_def)
  have good: "events (snd ?R) \<noteq> events w"
    if "rotation \<in> set [90, 180, 270, - 90, - 180, - 270]"
    using rotate_pages_opens [OF that, of w input_pdf output_pdf pages] by auto
  have zero: "rotate_pages w input_pdf output_pdf 0 pages = (Inl (ValueError rotation_msg), w)"
    by (simp add: rotate_pages_def)
  have a: "(?R = (Inl (ValueError rotation_msg), w)) =
           (rotation \<notin> set [90, 180, 270, - 90, - 180, - 270])"
    using bad good by (metis snd_conv)
  have b: "(\<exists>m. fst ?R = Inl (ValueError m) \<and> events (snd ?R) = events w) =
           (rotation \<notin> set [90, 180, 270, - 90, - 180, - 270])"
    using bad good by (metis fst_conv snd_conv)
  from a b zero show ?thesis by blast
qed

theorem rotate_pages_rejects_rotation_witness:
  "rotate_pages (disk ''in.pdf'' [a4_page 1]) ''in.pdf'' ''out.pdf'' 45 (PStr ''all'') =
     (Inl (ValueError rotation_msg), disk ''in.pdf'' [a4_page 1]) \<and>
   rotate_pages (disk ''in.pdf'' [a4_page 1]) ''in.pdf'' ''out.pdf'' 90 (PStr ''all'') \<noteq>
     (Inl (ValueError rotation_msg), disk ''in.pdf'' [a4_page 1])"
  using rotate_pages_rejects_rotation [of "disk ''in.pdf'' [a4_page 1]" "''in.pdf''" "''out.pdf''" 45 "PStr ''all''"]
    rotate_pages_rejects_rotation [of "disk ''in.pdf'' [a4_page 1]" "''in.pdf''" "''out.pdf''" 90 "PStr ''all''"]
  by simp

section \<open>compress_pdf\<close>

text \<open>
  C6, as the claim states it, at an input document without pages and at an output path
  that is the input path: the library refuses both saves, so \<open>compress_pdf\<close> raises and
  writes nothing.
\<close>

theorem compress_pdf_refused_saves:
  "fst (compress_pdf (disk ''in.pdf'' []) ''in.pdf'' ''out.pdf'' ''high'') =
     Inl (ValueError ''cannot save with zero pages'') \<and>
   saved_paths (events (snd (compress_pdf (disk ''in.pdf'' []) ''in.pdf'' ''out.pdf'' ''high''))) = [] \<and>
   fst (compress_pdf (disk ''in.pdf'' [a4_page 1, a4_page 2]) ''in.pdf'' ''in.pdf'' ''high'') =
     Inl (ValueError ''save to original must be incremental'') \<and>
   saved_paths (events (snd (compress_pdf (disk ''in.pdf'' [a4_page 1, a4_page 2]) ''in.pdf''
     ''in.pdf'' ''high''))) = []"
  by (simp add: compress_pdf_def compression_settings_def fitz_open_def doc_save_def disk_def
      stored_def)

text \<open>
  C6. For an input file with at least one page, a compression level among low, medium
  and high, and an output path other than the input path that the operating system lets
  the call write, \<open>compress_pdf\<close> hands the document it opened to the library's save as
  it is, with the options of the level. So the document saved has the pages of the
  input: the same page count and, page by page, the same page rectangle. That the bytes
  written under these options still hold these pages is the contract of the library's
  save, which the model of a file takes as given.
\<close>

theorem compress_pdf_keeps_pages:
  assumes "files w input_pdf = Some f"
    and "input_pdf \<noteq> []"
    and "doc f \<noteq> []"
    and "output_pdf \<noteq> input_pdf"
    and "os_write w output_pdf = None"
    and "compression_level \<in> set [''low'', ''medium'', ''high'']"
  shows "\<exists>w' g. compress_pdf w input_pdf output_pdf compression_level = (Inr (), w') \<and>
           files w' output_pdf = Some g \<and>
           doc g = doc f \<and>
           compression_settings compression_level = Some (saved_with g) \<and>
           length (doc g) = length (doc f) \<and>
           map rect_width (doc g) = map rect_width (doc f) \<and>
           map rect_height (doc g) = map rect_height (doc f) \<and>
           saved_paths (events w') = saved_paths (events w) @ [output_pdf]"
proof -
  from assms(6) obtain settings where st: "compression_settings compression_level = Some settings"
    by (auto simp: compression_settings_def)
  let ?w1 = "w\<lparr>events := events w @ [Opened input_pdf]\<rparr>"
  have op: "fitz_open w input_pdf = (Inr (doc f), ?w1)"
    by (rule fitz_open_file [OF assms(2) assms(1)])
  have sv: "doc_save ?w1 input_pdf output_pdf (doc f) settings =
              (Inr (), store ?w1 output_pdf (doc f) settings)"
    using assms(3,4,5) by (intro doc_save_ok) simp_all
  show ?thesis
    using st op sv
    by (simp add: compress_pdf_def files_store events_store saved_paths_append)
qed

theorem compress_pdf_keeps_pages_witness:
  "files (disk ''in.pdf'' [a4_page 1, a4_page 2]) ''in.pdf'' = Some (stored [a4_page 1, a4_page 2]) \<and>
   doc (stored [a4_page 1, a4_page 2]) \<noteq> [] \<and>
   ''out.pdf'' \<noteq> ''in.pdf'' \<and>
   os_write (disk ''in.pdf'' [a4_page 1, a4_page 2]) ''out.pdf'' = None \<and>
   ''high'' \<in> set [''low'', ''medium'', ''high''] \<and>
   (\<exists>w' g. compress_pdf (disk ''in.pdf'' [a4_page 1, a4_page 2]) ''in.pdf'' ''out.pdf'' ''high'' =
             (Inr (), w') \<and>
           files w' ''out.pdf'' = Some g \<and> length (doc g) = 2 \<and>
           garbage (saved_with g) = 4 \<and> clean (saved_with g) \<and>
           map rect_width (doc g) = [595, 595] \<and> map rect_height (doc g) = [842, 842])"
proof -
  have h1: "files (disk ''in.pdf'' [a4_page 1, a4_page 2]) ''in.pdf'' =
            Some (stored [a4_page 1, a4_page 2])"
    by (simp add: disk_def)
  have h2: "''in.pdf'' \<noteq> []" by simp
  have h3: "doc (stored [a4_page 1, a4_page 2]) \<noteq> []" by (simp add: stored_def)
  have h4: "''out.pdf'' \<noteq> ''in.pdf''" by simp
  have h5: "os_write (disk ''in.pdf'' [a4_page 1, a4_page 2]) ''out.pdf'' = None"
    by (simp add: disk_def)
  have h6: "''high'' \<in> set [''low'', ''medium'', ''high'']" by simp
  from compress_pdf_keeps_pages [OF h1 h2 h3 h4 h5 h6]
  obtain w' g where r: "compress_pdf (disk ''in.pdf'' [a4_page 1, a4_page 2]) ''in.pdf''
      ''out.pdf'' ''high'' = (Inr (), w')"
    and fg: "files w' ''out.pdf'' = Some g"
    and dg: "doc g = doc (stored [a4_page 1, a4_page 2])"
    and st: "compression_settings ''high'' = Some (saved_with g)"
    by blast
  from st have "saved_with g =
      \<lparr>garbage = 4, deflate = True, deflate_images = True, deflate_fonts = True, clean = True\<rparr>"
    by (simp add: compression_settings_def)
  then have opts: "garbage (saved_with g) = 4 \<and> clean (saved_with g)" by simp
  have concl: "\<exists>w' g. compress_pdf (disk ''in.pdf'' [a4_page 1, a4_page 2]) ''in.pdf''
        ''out.pdf'' ''high'' = (Inr (), w') \<and>
      files w' ''out.pdf'' = Some g \<and> length (doc g) = 2 \<and>
      garbage (saved_with g) = 4 \<and> clean (saved_with g) \<and>
      map rect_width (doc g) = [595, 595] \<and> map rect_height (doc g) = [842, 842]"
    using r fg dg opts
    by (intro exI [of _ w'] exI [of _ g])
       (simp add: stored_def a4_page_def rect_width_def rect_height_def)
  from h1 h3 h4 h5 h6 concl show ?thesis by blast
qed

section \<open>rotate_pages on the even pages\<close>

text \<open>
  C5. On a document of four pages, \<open>rotate_pages\<close> with \<open>pages = 'even'\<close>, a valid
  rotation and an output path other than the input path that the operating system lets
  the call write saves a document whose first and third pages are the original ones, and
  whose second and fourth pages differ from the original ones in the rotation only, which
  is the given angle (stored as one of 0, 90, 180, 270).
\<close>

theorem rotate_even_of_four:
  assumes "files w input_pdf = Some f"
    and "input_pdf \<noteq> []"
    and "doc f = [p1, p2, p3, p4]"
    and "rotation \<in> set [90, 180, 270, - 90, - 180, - 270]"
    and "output_pdf \<noteq> input_pdf"
    and "os_write w output_pdf = None"
  shows "\<exists>w' g q2 q4. rotate_pages w input_pdf output_pdf rotation (PStr ''even'') = (Inr (), w') \<and>
           files w' output_pdf = Some g \<and>
           doc g = [p1, q2, p3, q4] \<and>
           page_rotation q2 = rotation mod 360 \<and> page_rotation q4 = rotation mod 360 \<and>
           content q2 = content p2 \<and> box_width q2 = box_width p2 \<and>
           box_height q2 = box_height p2 \<and> drawn q2 = drawn p2 \<and>
           content q4 = content p4 \<and> box_width q4 = box_width p4 \<and>
           box_height q4 = box_height p4 \<and> drawn q4 = drawn p4"
proof -
  let ?w1 = "w\<lparr>events := events w @ [Opened input_pdf]\<rparr>"
  let ?d = "[p1, set_rotation rotation p2, p3, set_rotation rotation p4]"
  have op: "fitz_open w input_pdf = (Inr (doc f), ?w1)"
    by (rule fitz_open_file [OF assms(2) assms(1)])
  have sel: "select_pages_to_rotate (length (doc f)) (PStr ''even'') = Inr [1, 3]"
    using assms(3) by (simp add: select_pages_to_rotate_def)
  have loop: "rotate_loop (doc f) rotation [1, 3] = Inr ?d"
    using assms(3) by (simp add: numeral_3_eq_3)
  have sv: "doc_save ?w1 input_pdf output_pdf ?d default_save =
              (Inr (), store ?w1 output_pdf ?d default_save)"
    using assms(5,6) by (intro doc_save_ok) simp_all
  show ?thesis
    using assms(4) op sel loop sv
    by (simp add: rotate_pages_def files_store set_rotation_def)
qed

theorem rotate_even_of_four_witness:
  "files (disk ''in.pdf'' [a4_page 1, a4_page 2, a4_page 3, a4_page 4]) ''in.pdf'' =
     Some (stored [a4_page 1, a4_page 2, a4_page 3, a4_page 4]) \<and>
   doc (stored [a4_page 1, a4_page 2, a4_page 3, a4_page 4]) =
     [a4_page 1, a4_page 2, a4_page 3, a4_page 4] \<and>
   (- 90 :: int) \<in> set [90, 180, 270, - 90, - 180, - 270] \<and>
   ''out.pdf'' \<noteq> ''in.pdf'' \<and>
   os_write (disk ''in.pdf'' [a4_page 1, a4_page 2, a4_page 3, a4_page 4]) ''out.pdf'' = None \<and>
   (\<exists>w' g. rotate_pages (disk ''in.pdf'' [a4_page 1, a4_page 2, a4_page 3, a4_page 4])
             ''in.pdf'' ''out.pdf'' (- 90) (PStr ''even'') = (Inr (), w') \<and>
          files w' ''out.pdf'' = Some g \<and>
          map page_rotation (doc g) = [0, 270, 0, 270] \<and>
          map content (doc g) = [Some 1, Some 2, Some 3, Some 4])"
proof -
  have h1: "files (disk ''in.pdf'' [a4_page 1, a4_page 2, a4_page 3, a4_page 4]) ''in.pdf'' =
            Some (stored [a4_page 1, a4_page 2, a4_page 3, a4_page 4])"
    by (simp add: disk_def)
  have h2: "doc (stored [a4_page 1, a4_page 2, a4_page 3, a4_page 4]) =
            [a4_page 1, a4_page 2, a4_page 3, a4_page 4]"
    by (simp add: stored_def)
  have h3: "(- 90 :: int) \<in> set [90, 180, 270, - 90, - 180, - 270]" by simp
  have h0: "''in.pdf'' \<noteq> []" by simp
  have h4: "''out.pdf'' \<noteq> ''in.pdf''" by simp
  have h5: "os_write (disk ''in.pdf'' [a4_page 1, a4_page 2, a4_page 3, a4_page 4]) ''out.pdf'' =
            None"
    by (simp add: disk_def)
  from rotate_even_of_four [OF h1 h0 h2 h3 h4 h5] h1 h2 h5 show ?thesis
    by (auto simp: a4_page_def)
qed

section \<open>Facts about numbered paths\<close>

lemma digit_char_inj: "a < 10 \<Longrightarrow> b < 10 \<Longrightarrow> digit_char a = digit_char b \<Longrightarrow> a = b"
proof -
  assume a: "a < 10" and b: "b < 10" and e: "digit_char a = digit_char b"
  have d: "distinct ''0123456789''" by simp
  have l: "length ''0123456789'' = 10" by simp
  from e have "''0123456789'' ! a = ''0123456789'' ! b" by (simp add: digit_char_def)
  with d a b l show "a = b" by (metis nth_eq_iff_index_eq)
qed

lemma str_nat_not_Nil: "str_nat n \<noteq> []"
  by (subst str_nat.simps) simp

lemma str_nat_inj: "str_nat m = str_nat n \<Longrightarrow> m = n"
proof (induction m arbitrary: n rule: str_nat.induct)
  case (1 m)
  show ?case
  proof (cases "m < 10")
    case True
    show ?thesis
    proof (cases "n < 10")
      case n: True
      from "1.prems" True n have "digit_char m = digit_char n"
        by (simp add: str_nat.simps [of m] str_nat.simps [of n])
      from digit_char_inj [OF True n this] show ?thesis .
    next
      case n: False
      from "1.prems" True n have "[digit_char m] = str_nat (n div 10) @ [digit_char (n mod 10)]"
        by (simp add: str_nat.simps [of m] str_nat.simps [of n])
      then have "str_nat (n div 10) = []" by simp
      then show ?thesis using str_nat_not_Nil by blast
    qed
  next
    case False
    show ?thesis
    proof (cases "n < 10")
      case n: True
      from "1.prems" False n have "str_nat (m div 10) @ [digit_char (m mod 10)] = [digit_char n]"
        by (simp add: str_nat.simps [of m] str_nat.simps [of n])
      then have "str_nat (m div 10) = []" by simp
      then show ?thesis using str_nat_not_Nil by blast
    next
      case n: False
      from "1.prems" False n
      have e: "str_nat (m div 10) @ [digit_char (m mod 10)] =
               str_nat (n div 10) @ [digit_char (n mod 10)]"
        by (simp add: str_nat.simps [of m] str_nat.simps [of n])
      then have "str_nat (m div 10) = str_nat (n div 10)"
        and dg: "digit_char (m mod 10) = digit_char (n mod 10)" by simp_all
      with "1.IH" False have q: "m div 10 = n div 10" by blast
      from dg have r: "m mod 10 = n mod 10"
        by (intro digit_char_inj) simp_all
      from q r show ?thesis by (metis div_mult_mod_eq)
    qed
  qed
qed

lemma path_join_inj: "path_join a b = path_join a c \<Longrightarrow> b = c"
  by (simp add: path_join_def split: if_splits)

lemma numbered_path_inj:
  "path_join folder (base @ infix' @ str_nat m @ ext) =
   path_join folder (base @ infix' @ str_nat n @ ext) \<Longrightarrow> m = n"
  by (drule path_join_inj) (simp add: str_nat_inj)

lemma path_join_not_Nil: "b \<noteq> [] \<Longrightarrow> path_join a b \<noteq> []"
  by (simp add: path_join_def)

section \<open>Facts about a run of saves\<close>

lemma saved_paths_map_Saved: "saved_paths (map Saved ps) = ps"
  by (induction ps) simp_all

lemma events_save_fold:
  "events (foldl (\<lambda>w (p, d). store w p d opts) w pds) = events w @ map (Saved \<circ> fst) pds"
  by (induction pds arbitrary: w) (auto simp: store_def)

lemma files_save_fold_other:
  "p \<notin> fst ` set pds \<Longrightarrow> files (foldl (\<lambda>w (p, d). store w p d opts) w pds) p = files w p"
  by (induction pds arbitrary: w) (auto simp: store_def)

lemma files_save_fold_nth:
  "distinct (map fst pds) \<Longrightarrow> i < length pds \<Longrightarrow>
   files (foldl (\<lambda>w (p, d). store w p d opts) w pds) (fst (pds ! i)) =
     Some \<lparr>doc = snd (pds ! i), saved_with = opts\<rparr>"
proof (induction pds arbitrary: w i)
  case Nil
  then show ?case by simp
next
  case (Cons pd pds)
  obtain p d where pd: "pd = (p, d)" by (cases pd)
  show ?case
  proof (cases i)
    case 0
    from Cons.prems(1) pd have "p \<notin> fst ` set pds" by auto
    then have "files (foldl (\<lambda>w (p, d). store w p d opts) (store w p d opts) pds) p =
               files (store w p d opts) p"
      by (rule files_save_fold_other)
    then show ?thesis
      using 0 pd by (simp add: store_def)
  next
    case (Suc j)
    with Cons show ?thesis by simp
  qed
qed

lemma saved_paths_run:
  "saved_paths (events (foldl (\<lambda>w (p, d). store w p d opts) w pds)) =
   saved_paths (events w) @ map fst pds"
  by (simp add: events_save_fold saved_paths_append saved_paths_map_Saved
      flip: map_map)

section \<open>Facts about ranges with a step\<close>

lemma upt_0_Suc: "[0..<Suc n] = 0 # map Suc [0..<n]"
  by (simp add: upt_conv_Cons map_Suc_upt del: upt_Suc)

lemma range_count_step:
  assumes "0 < step" and "i < n"
  shows "(n - i + step - 1) div step = Suc ((n - (i + step) + step - 1) div step)"
proof (cases "i + step \<le> n")
  case True
  have gen: "(a + step) div step = Suc (a div step)" for a
    using assms(1) by simp
  from True assms have "n - i + step - 1 = (n - (i + step) + step - 1) + step"
    by simp
  then show ?thesis
    by (simp only: gen)
next
  case False
  with assms have a: "(n - i + step - 1) div step = 1"
    by (intro div_nat_eqI) simp_all
  from False assms have b: "(n - (i + step) + step - 1) div step = 0" by simp
  from a b show ?thesis by simp
qed

lemma range_from_eq:
  "0 < step \<Longrightarrow>
   range_from i n step = map (\<lambda>j. i + j * step) [0..<(n - i + step - 1) div step]"
proof (induction i n step rule: range_from.induct)
  case (1 i n step)
  show ?case
  proof (cases "i < n")
    case False
    with "1.prems" have "(n - i + step - 1) div step = 0" by simp
    with False show ?thesis by (simp add: range_from.simps [of i n step])
  next
    case True
    have ih: "range_from (i + step) n step =
              map (\<lambda>j. i + step + j * step) [0..<(n - (i + step) + step - 1) div step]"
      using "1.IH" True "1.prems" by blast
    have "range_from i n step = i # range_from (i + step) n step"
      using True "1.prems" by (subst range_from.simps) simp
    also have "\<dots> = map (\<lambda>j. i + j * step) [0..<Suc ((n - (i + step) + step - 1) div step)]"
      unfolding ih upt_0_Suc by (simp add: comp_def)
    finally show ?thesis
      using range_count_step [OF "1.prems" True] by simp
  qed
qed

lemma ceiling_div_nat:
  assumes "0 < c"
  shows "nat \<lceil>real k / real c\<rceil> = (k + c - 1) div c"
proof -
  define q where "q = (k + c - 1) div c"
  define r where "r = (k + c - 1) mod c"
  have m: "k + c - 1 = q * c + r" by (simp add: q_def r_def)
  have r: "r < c" using assms by (simp add: r_def)
  have le: "k \<le> q * c" using m r assms by linarith
  have gt: "q * c < k + c" using m r assms by linarith
  have le': "real k \<le> real q * real c"
    using le by (metis of_nat_mult of_nat_le_iff)
  have gt': "real q * real c < real k + real c"
    using gt by (metis of_nat_add of_nat_mult of_nat_less_iff)
  have c: "0 < real c" using assms by simp
  have "\<lceil>real k / real c\<rceil> = int q"
  proof (rule ceiling_unique)
    have "(real q - 1) * real c < real k" using gt' by (simp add: algebra_simps)
    then show "of_int (int q) - 1 < real k / real c"
      using c by (simp add: pos_less_divide_eq)
    show "real k / real c \<le> of_int (int q)"
      using c le' by (simp add: pos_divide_le_eq)
  qed
  then show ?thesis by (simp add: q_def)
qed

section \<open>The loops of split_pdf as runs of saves\<close>

lemma page_span_single:
  assumes "i < length src"
  shows "page_span src (int i) (int i) = [src ! i]"
proof -
  from assms have "src \<noteq> []" by auto
  moreover have "take (Suc 0) (drop i src) = [src ! i]"
    using assms by (simp add: take_Suc_conv_app_nth)
  ultimately show ?thesis
    using assms by (simp add: page_span_def Let_def)
qed

lemma page_span_chunk:
  assumes "s < length src" and "0 < c"
  shows "page_span src (int s) (min (int s + int c - 1) (int (length src) - 1)) =
         take c (drop s src)"
proof -
  from assms have ne: "src \<noteq> []" by auto
  show ?thesis
  proof (cases "s + c \<le> length src")
    case True
    with assms have "min (int s + int c - 1) (int (length src) - 1) = int s + int c - 1"
      by simp
    then show ?thesis
      using assms ne by (simp add: page_span_def Let_def)
  next
    case False
    with assms have m: "min (int s + int c - 1) (int (length src) - 1) = int (length src) - 1"
      by simp
    have "nat (int (length src) - 1 - int s + 1) = length src - s"
      using assms by simp
    moreover have "take (length src - s) (drop s src) = take c (drop s src)"
      using False by simp
    ultimately show ?thesis
      using assms ne by (simp add: page_span_def Let_def m)
  qed
qed

text \<open>When every page number is a page of the source and the operating system refuses
  none of the files, the loop over the pages is the run of its saves.\<close>

lemma split_pages_loop_eq:
  assumes "\<forall>n\<in>set ns. n < length src"
    and "\<forall>n\<in>set ns.
           os_write w (path_join output_folder
                         (base_name @ ''_page_'' @ str_nat (n + 1) @ ''.pdf'')) = None"
  shows "split_pages_loop w src output_folder base_name ns output_files =
     (Inr (output_files @
        map (\<lambda>n. path_join output_folder (base_name @ ''_page_'' @ str_nat (n + 1) @ ''.pdf'')) ns),
      foldl (\<lambda>w (p, d). store w p d default_save) w
        (map (\<lambda>n. (path_join output_folder (base_name @ ''_page_'' @ str_nat (n + 1) @ ''.pdf''),
                    page_span src (int n) (int n))) ns))"
  using assms
proof (induction ns arbitrary: w output_files)
  case Nil
  then show ?case by simp
next
  case (Cons n ns)
  define p where "p = path_join output_folder (base_name @ ''_page_'' @ str_nat (n + 1) @ ''.pdf'')"
  define d where "d = page_span src (int n) (int n)"
  from Cons.prems(1) have "n < length src" by simp
  then have dne: "d \<noteq> []" by (simp add: d_def page_span_single)
  have pne: "p \<noteq> []" unfolding p_def by (rule path_join_not_Nil) simp
  have osw: "os_write w p = None" using Cons.prems(2) by (simp add: p_def)
  have sv: "doc_save w [] p d default_save = (Inr (), store w p d default_save)"
    using pne dne osw by (rule doc_save_ok)
  have pre1: "\<forall>n\<in>set ns. n < length src" using Cons.prems(1) by simp
  have pre2: "\<forall>n\<in>set ns.
      os_write (store w p d default_save)
        (path_join output_folder (base_name @ ''_page_'' @ str_nat (n + 1) @ ''.pdf'')) = None"
    using Cons.prems(2) by (simp add: os_write_store)
  note ih = Cons.IH [OF pre1 pre2, of "output_files @ [p]"]
  have step: "split_pages_loop w src output_folder base_name (n # ns) output_files =
      split_pages_loop (store w p d default_save) src output_folder base_name ns
        (output_files @ [p])"
    apply (simp only: split_pages_loop.simps Let_def insert_pdf_def append_Nil)
    apply (simp only: flip: p_def d_def)
    apply (simp only: sv prod.case sum.case)
    done
  show ?case
    unfolding step ih by (simp add: p_def d_def)
qed

text \<open>The same for the loop over the chunks, whose starts lie in the source and whose
  size is positive.\<close>

lemma split_chunks_loop_eq:
  assumes "\<forall>s\<in>set starts. s < length src"
    and "0 < pages_per_split"
    and "\<forall>j<length starts.
           os_write w (path_join output_folder
                         (base_name @ ''_chunk_'' @ str_nat (chunk_num + j) @ ''.pdf'')) = None"
  shows "split_chunks_loop w src output_folder base_name pages_per_split starts chunk_num
           output_files =
     (Inr (output_files @
        map (\<lambda>j. path_join output_folder
                    (base_name @ ''_chunk_'' @ str_nat (chunk_num + j) @ ''.pdf''))
          [0..<length starts]),
      foldl (\<lambda>w (p, d). store w p d default_save) w
        (map (\<lambda>j. (path_join output_folder
                      (base_name @ ''_chunk_'' @ str_nat (chunk_num + j) @ ''.pdf''),
                    page_span src (int (starts ! j))
                      (min (int (starts ! j) + pages_per_split - 1) (int (length src) - 1))))
           [0..<length starts]))"
  using assms
proof (induction starts arbitrary: w chunk_num output_files)
  case Nil
  then show ?case by simp
next
  case (Cons s starts)
  define p where
    "p = path_join output_folder (base_name @ ''_chunk_'' @ str_nat chunk_num @ ''.pdf'')"
  define d where
    "d = page_span src (int s) (min (int s + pages_per_split - 1) (int (length src) - 1))"
  from Cons.prems(1) have s: "s < length src" by simp
  have "d = take (nat pages_per_split) (drop s src)"
    using page_span_chunk [OF s, of "nat pages_per_split"] Cons.prems(2) by (simp add: d_def)
  with s Cons.prems(2) have dne: "d \<noteq> []" by simp
  have pne: "p \<noteq> []" unfolding p_def by (rule path_join_not_Nil) simp
  have osw: "os_write w p = None"
    using Cons.prems(3) [rule_format, of 0] by (simp add: p_def)
  have sv: "doc_save w [] p d default_save = (Inr (), store w p d default_save)"
    using pne dne osw by (rule doc_save_ok)
  have pre1: "\<forall>s\<in>set starts. s < length src" using Cons.prems(1) by simp
  have pre3: "\<forall>j<length starts.
      os_write (store w p d default_save)
        (path_join output_folder
           (base_name @ ''_chunk_'' @ str_nat (chunk_num + 1 + j) @ ''.pdf'')) = None"
  proof (intro allI impI)
    fix j assume "j < length starts"
    then have "Suc j < length (s # starts)" by simp
    from Cons.prems(3) [rule_format, OF this] show "os_write (store w p d default_save)
        (path_join output_folder
           (base_name @ ''_chunk_'' @ str_nat (chunk_num + 1 + j) @ ''.pdf'')) = None"
      by (simp add: os_write_store)
  qed
  note ih = Cons.IH [OF pre1 Cons.prems(2) pre3, of "output_files @ [p]"]
  have step: "split_chunks_loop w src output_folder base_name pages_per_split (s # starts)
        chunk_num output_files =
      split_chunks_loop (store w p d default_save) src output_folder base_name pages_per_split
        starts (chunk_num + 1) (output_files @ [p])"
    apply (simp only: split_chunks_loop.simps Let_def insert_pdf_def append_Nil)
    apply (simp only: flip: p_def d_def)
    apply (simp only: sv prod.case sum.case)
    done
  have u: "[0..<length (s # starts)] = 0 # map Suc [0..<length starts]"
    by (simp add: upt_conv_Cons map_Suc_upt del: upt_Suc)
  show ?case
    apply (subst u)
    apply (subst u)
    apply (simp only: step ih)
    apply (simp add: comp_def p_def d_def)
    done
qed

section \<open>split_pdf, one file per page\<close>

text \<open>
  C8. For an input file of K pages and an output folder that can be made (its path is
  not empty and names no file, and the operating system refuses neither the folder nor
  the files written into it), \<open>split_pdf\<close> in mode \<open>pages\<close> returns K paths, in page
  order and all different, and has saved exactly these K files: the i-th holds the one
  page that is page i of the input. No other file on the disk has changed.
\<close>

theorem split_pages_one_file_per_page:
  assumes "files w input_pdf = Some f"
    and "input_pdf \<noteq> []"
    and "output_folder \<noteq> []"
    and "files w output_folder = None"
    and "os_mkdir w output_folder = None"
    and "\<forall>n. os_write w (path_join output_folder
                (splitext_root (basename input_pdf) @ ''_page_'' @ str_nat n @ ''.pdf'')) = None"
  shows "\<exists>out w'.
           split_pdf w input_pdf output_folder ''pages'' pages_per_split page_ranges =
             (Inr out, w') \<and>
           length out = length (doc f) \<and> distinct out \<and>
           saved_paths (events w') = saved_paths (events w) @ out \<and>
           (\<forall>i<length (doc f).
              out ! i = path_join output_folder
                          (splitext_root (basename input_pdf) @ ''_page_'' @ str_nat (i + 1) @
                           ''.pdf'') \<and>
              map_option doc (files w' (out ! i)) = Some [doc f ! i]) \<and>
           (\<forall>p. p \<notin> set out \<longrightarrow> files w' p = files w p)"
proof -
  define src where "src = doc f"
  define base where "base = splitext_root (basename input_pdf)"
  define path where
    "path = (\<lambda>n. path_join output_folder (base @ ''_page_'' @ str_nat (n + 1) @ ''.pdf''))"
  define w1 where "w1 = w\<lparr>events := events w @ [Opened input_pdf]\<rparr>"
  define w2 where "w2 = w1\<lparr>events := events w1 @ [MadeDirs output_folder]\<rparr>"
  define pds where "pds = map (\<lambda>n. (path n, page_span src (int n) (int n))) [0..<length src]"
  define out where "out = map path [0..<length src]"
  define w' where "w' = foldl (\<lambda>w (p, d). store w p d default_save) w2 pds"
  have op: "fitz_open w input_pdf = (Inr src, w1)"
    unfolding src_def w1_def by (rule fitz_open_file [OF assms(2) assms(1)])
  have mk: "makedirs w1 output_folder = (Inr (), w2)"
    unfolding w2_def using assms(3,4,5) by (intro makedirs_ok) (simp_all add: w1_def)
  have fw2: "files w2 = files w" and ew2: "saved_paths (events w2) = saved_paths (events w)"
    and ow2: "os_write w2 = os_write w"
    by (simp_all add: w2_def w1_def saved_paths_append)
  have fst_pds: "map fst pds = out"
    by (simp add: pds_def out_def comp_def)
  have loop: "split_pages_loop w2 src output_folder base [0..<length src] [] = (Inr out, w')"
  proof -
    have a: "\<forall>n\<in>set [0..<length src]. n < length src" by simp
    have b: "\<forall>n\<in>set [0..<length src].
        os_write w2 (path_join output_folder (base @ ''_page_'' @ str_nat (n + 1) @ ''.pdf'')) =
          None"
      using assms(6) by (simp add: ow2 base_def)
    show ?thesis
      unfolding out_def w'_def pds_def path_def
      using split_pages_loop_eq [OF a b, of "[]"] by simp
  qed
  have run: "split_pdf w input_pdf output_folder ''pages'' pages_per_split page_ranges =
             (Inr out, w')"
    using loop by (simp add: split_pdf_def op mk Let_def base_def)
  have inj: "inj_on path (set [0..<length src])"
  proof (rule inj_onI)
    fix x y
    assume "path x = path y"
    then have "x + 1 = y + 1"
      unfolding path_def by (rule numbered_path_inj)
    then show "x = y" by simp
  qed
  have dist: "distinct out"
    unfolding out_def using inj by (simp add: distinct_map)
  have saved: "saved_paths (events w') = saved_paths (events w) @ out"
    by (simp add: w'_def saved_paths_run fst_pds ew2)
  have each: "out ! i = path i \<and> map_option doc (files w' (out ! i)) = Some [src ! i]"
    if "i < length src" for i
  proof -
    from that have i: "i < length pds" by (simp add: pds_def)
    have d: "distinct (map fst pds)" using dist fst_pds by simp
    have "files w' (fst (pds ! i)) = Some \<lparr>doc = snd (pds ! i), saved_with = default_save\<rparr>"
      unfolding w'_def by (rule files_save_fold_nth [OF d i])
    moreover have "fst (pds ! i) = out ! i" "snd (pds ! i) = [src ! i]" "out ! i = path i"
      using that by (simp_all add: pds_def out_def page_span_single)
    ultimately show ?thesis by simp
  qed
  have other: "files w' p = files w p" if "p \<notin> set out" for p
  proof -
    from that have "p \<notin> fst ` set pds" using fst_pds by (metis set_map)
    then show ?thesis
      unfolding w'_def by (simp add: files_save_fold_other fw2)
  qed
  from run dist saved each other show ?thesis
    by (intro exI [of _ out] exI [of _ w']) (simp add: out_def src_def path_def base_def)
qed

theorem split_pages_one_file_per_page_witness:
  "files (disk ''dir/in.pdf'' [a4_page 1, a4_page 2, a4_page 3]) ''dir/in.pdf'' =
     Some (stored [a4_page 1, a4_page 2, a4_page 3]) \<and>
   files (disk ''dir/in.pdf'' [a4_page 1, a4_page 2, a4_page 3]) ''out'' = None \<and>
   os_mkdir (disk ''dir/in.pdf'' [a4_page 1, a4_page 2, a4_page 3]) ''out'' = None \<and>
   (\<exists>out w'. split_pdf (disk ''dir/in.pdf'' [a4_page 1, a4_page 2, a4_page 3]) ''dir/in.pdf''
                ''out'' ''pages'' 1 None = (Inr out, w') \<and>
       length out = 3 \<and>
       out ! 0 = ''out/in_page_1.pdf'' \<and>
       out ! 2 = ''out/in_page_3.pdf'' \<and>
       map_option doc (files w' (out ! 0)) = Some [a4_page 1] \<and>
       map_option doc (files w' (out ! 2)) = Some [a4_page 3])"
proof -
  let ?w = "disk ''dir/in.pdf'' [a4_page 1, a4_page 2, a4_page 3]"
  have h: "files ?w ''dir/in.pdf'' = Some (stored [a4_page 1, a4_page 2, a4_page 3])"
    by (simp add: disk_def)
  have h2: "''dir/in.pdf'' \<noteq> []" and h3: "''out'' \<noteq> []" by simp_all
  have h4: "files ?w ''out'' = None" and h5: "os_mkdir ?w ''out'' = None"
    by (simp_all add: disk_def)
  have h6: "\<forall>n. os_write ?w (path_join ''out''
                (splitext_root (basename ''dir/in.pdf'') @ ''_page_'' @ str_nat n @ ''.pdf'')) = None"
    by (simp add: disk_def)
  from split_pages_one_file_per_page [OF h h2 h3 h4 h5 h6, of 1 None]
  obtain out w' where run: "split_pdf ?w ''dir/in.pdf'' ''out'' ''pages'' 1 None = (Inr out, w')"
    and len: "length out = length (doc (stored [a4_page 1, a4_page 2, a4_page 3]))"
    and each: "\<forall>i<length (doc (stored [a4_page 1, a4_page 2, a4_page 3])).
        out ! i = path_join ''out''
                    (splitext_root (basename ''dir/in.pdf'') @ ''_page_'' @ str_nat (i + 1) @
                     ''.pdf'') \<and>
        map_option doc (files w' (out ! i)) =
          Some [doc (stored [a4_page 1, a4_page 2, a4_page 3]) ! i]"
    by blast
  have l3: "length (doc (stored [a4_page 1, a4_page 2, a4_page 3])) = 3"
    by (simp add: stored_def)
  have lt0: "0 < length (doc (stored [a4_page 1, a4_page 2, a4_page 3]))"
    and lt2: "2 < length (doc (stored [a4_page 1, a4_page 2, a4_page 3]))"
    using l3 by simp_all
  note e0 = each [rule_format, OF lt0]
  note e2 = each [rule_format, OF lt2]
  have p0: "path_join ''out''
        (splitext_root (basename ''dir/in.pdf'') @ ''_page_'' @ str_nat (0 + 1) @ ''.pdf'') =
        ''out/in_page_1.pdf''"
    by (simp add: path_join_def splitext_root_def basename_def str_nat.simps digit_char_def)
  have p2: "path_join ''out''
        (splitext_root (basename ''dir/in.pdf'') @ ''_page_'' @ str_nat (2 + 1) @ ''.pdf'') =
        ''out/in_page_3.pdf''"
    by (simp add: path_join_def splitext_root_def basename_def str_nat.simps digit_char_def)
  from e0 e2 p0 p2 run len l3 h h4 h5 show ?thesis
    by (auto simp: stored_def)
qed

section \<open>split_pdf in chunks\<close>

lemma chunk_start_in_range:
  assumes "0 < (c::nat)" and "i < (k + c - 1) div c"
  shows "i * c < k"
proof -
  from assms(2) have "Suc i \<le> (k + c - 1) div c" by simp
  with assms(1) have "Suc i * c \<le> k + c - 1"
    by (simp only: less_eq_div_iff_mult_less_eq)
  with assms(1) show ?thesis by simp
qed

lemma chunk_full_before_last:
  assumes "0 < (c::nat)" and "Suc i < (k + c - 1) div c"
  shows "i * c + c \<le> k"
proof -
  from chunk_start_in_range [OF assms] have "Suc i * c < k" .
  then show ?thesis by simp
qed

lemma chunks_cover:
  assumes "0 < (c::nat)"
  shows "k \<le> ((k + c - 1) div c) * c"
proof -
  have "k + c - 1 = ((k + c - 1) div c) * c + (k + c - 1) mod c" by simp
  moreover have "(k + c - 1) mod c < c" using assms by simp
  ultimately show ?thesis using assms by linarith
qed

text \<open>
  C2. For an input file of K pages, a chunk size C of at least 1 and an output folder
  that can be made (its path is not empty and names no file, and the operating system
  refuses neither the folder nor the files written into it), \<open>split_pdf\<close> in mode
  \<open>chunks\<close> returns and saves exactly ceil(K/C) files, all different. The i-th file (from 0)
  holds the C pages from page i*C on, or as many as are left: every file but the last
  has C pages, and the last has the remaining K - C*(ceil(K/C) - 1). No other file on
  the disk has changed.
\<close>

theorem split_chunks_count:
  assumes "files w input_pdf = Some f"
    and "1 \<le> pages_per_split"
    and "input_pdf \<noteq> []"
    and "output_folder \<noteq> []"
    and "files w output_folder = None"
    and "os_mkdir w output_folder = None"
    and "\<forall>n. os_write w (path_join output_folder
                (splitext_root (basename input_pdf) @ ''_chunk_'' @ str_nat n @ ''.pdf'')) = None"
  shows "\<exists>out w'.
           split_pdf w input_pdf output_folder ''chunks'' pages_per_split page_ranges =
             (Inr out, w') \<and>
           length out = nat \<lceil>real (length (doc f)) / real_of_int pages_per_split\<rceil> \<and>
           distinct out \<and>
           saved_paths (events w') = saved_paths (events w) @ out \<and>
           (\<forall>i<length out.
              \<exists>g. files w' (out ! i) = Some g \<and>
                  doc g = take (nat pages_per_split) (drop (i * nat pages_per_split) (doc f)) \<and>
                  length (doc g) =
                    (if i + 1 < length out then nat pages_per_split
                     else length (doc f) - nat pages_per_split * (length out - 1))) \<and>
           (\<forall>p. p \<notin> set out \<longrightarrow> files w' p = files w p)"
proof -
  define src where "src = doc f"
  define c where "c = nat pages_per_split"
  define N where "N = (length src + c - 1) div c"
  define base where "base = splitext_root (basename input_pdf)"
  define path where
    "path = (\<lambda>j. path_join output_folder (base @ ''_chunk_'' @ str_nat (1 + j) @ ''.pdf''))"
  define starts where "starts = map (\<lambda>j. j * c) [0..<N]"
  define w1 where "w1 = w\<lparr>events := events w @ [Opened input_pdf]\<rparr>"
  define w2 where "w2 = w1\<lparr>events := events w1 @ [MadeDirs output_folder]\<rparr>"
  define pds where
    "pds = map (\<lambda>j. (path j, page_span src (int (starts ! j))
                 (min (int (starts ! j) + pages_per_split - 1) (int (length src) - 1))))
             [0..<length starts]"
  define out where "out = map path [0..<length starts]"
  define w' where "w' = foldl (\<lambda>w (p, d). store w p d default_save) w2 pds"
  have c: "0 < c" and cc: "int c = pages_per_split"
    using assms(2) by (simp_all add: c_def)
  have ls: "length starts = N" by (simp add: starts_def)
  have rng: "py_range (length src) pages_per_split = Inr starts"
    using assms(2) c range_from_eq [of c 0 "length src"]
    by (simp add: py_range_def starts_def N_def c_def)
  have op: "fitz_open w input_pdf = (Inr src, w1)"
    unfolding src_def w1_def by (rule fitz_open_file [OF assms(3) assms(1)])
  have mk: "makedirs w1 output_folder = (Inr (), w2)"
    unfolding w2_def using assms(4,5,6) by (intro makedirs_ok) (simp_all add: w1_def)
  have fw2: "files w2 = files w" and ew2: "saved_paths (events w2) = saved_paths (events w)"
    and ow2: "os_write w2 = os_write w"
    by (simp_all add: w2_def w1_def saved_paths_append)
  have fst_pds: "map fst pds = out"
    by (simp add: pds_def out_def comp_def)
  have loop: "split_chunks_loop w2 src output_folder base pages_per_split starts 1 [] =
              (Inr out, w')"
  proof -
    have a: "\<forall>s\<in>set starts. s < length src"
      using chunk_start_in_range [OF c, of _ "length src"] by (auto simp: starts_def N_def)
    have p: "0 < pages_per_split" using assms(2) by simp
    have b: "\<forall>j<length starts.
        os_write w2 (path_join output_folder (base @ ''_chunk_'' @ str_nat (1 + j) @ ''.pdf'')) =
          None"
      using assms(7) by (simp add: ow2 base_def)
    show ?thesis
      unfolding out_def w'_def pds_def path_def
      using split_chunks_loop_eq [OF a p b, of "[]"] by simp
  qed
  have run: "split_pdf w input_pdf output_folder ''chunks'' pages_per_split page_ranges =
             (Inr out, w')"
    using loop rng by (simp add: split_pdf_def op mk Let_def base_def)
  have len: "length out = nat \<lceil>real (length (doc f)) / real_of_int pages_per_split\<rceil>"
    using ceiling_div_nat [OF c, of "length src"]
    by (simp add: out_def ls N_def src_def cc [symmetric])
  have inj: "inj_on path (set [0..<length starts])"
  proof (rule inj_onI)
    fix x y
    assume "path x = path y"
    then have "1 + x = 1 + y"
      unfolding path_def by (rule numbered_path_inj)
    then show "x = y" by simp
  qed
  have dist: "distinct out"
    unfolding out_def using inj by (simp add: distinct_map)
  have saved: "saved_paths (events w') = saved_paths (events w) @ out"
    by (simp add: w'_def saved_paths_run fst_pds ew2)
  have each: "\<exists>g. files w' (out ! i) = Some g \<and>
                 doc g = take c (drop (i * c) src) \<and>
                 length (doc g) = (if i + 1 < length out then c
                                   else length src - c * (length out - 1))"
    if "i < length out" for i
  proof -
    from that have iN: "i < N" by (simp add: out_def ls)
    from that have i: "i < length pds" by (simp add: pds_def out_def)
    have st: "starts ! i = i * c" using iN by (simp add: starts_def)
    have inr: "i * c < length src"
      using chunk_start_in_range [OF c] iN by (simp add: N_def)
    have d: "distinct (map fst pds)" using dist fst_pds by simp
    have "files w' (fst (pds ! i)) = Some \<lparr>doc = snd (pds ! i), saved_with = default_save\<rparr>"
      unfolding w'_def by (rule files_save_fold_nth [OF d i])
    moreover have "fst (pds ! i) = out ! i"
      using that by (simp add: pds_def out_def)
    moreover have "snd (pds ! i) = take c (drop (i * c) src)"
      using that page_span_chunk [OF inr c] cc by (simp add: pds_def out_def st)
    moreover have "length (take c (drop (i * c) src)) =
                   (if i + 1 < length out then c else length src - c * (length out - 1))"
    proof (cases "i + 1 < length out")
      case True
      then have "Suc i < (length src + c - 1) div c" by (simp add: out_def ls N_def)
      from chunk_full_before_last [OF c this] True show ?thesis by simp
    next
      case False
      with that have e: "length out - 1 = i" by simp
      have "length src \<le> N * c" unfolding N_def by (rule chunks_cover [OF c])
      moreover have "N = Suc i" using e iN by (simp add: out_def ls)
      ultimately have "length src - i * c \<le> c" by simp
      with False e show ?thesis by (simp add: mult.commute)
    qed
    ultimately show ?thesis by simp
  qed
  have other: "files w' p = files w p" if "p \<notin> set out" for p
  proof -
    from that have "p \<notin> fst ` set pds" using fst_pds by (metis set_map)
    then show ?thesis
      unfolding w'_def by (simp add: files_save_fold_other fw2)
  qed
  have each': "\<forall>i<length out.
      \<exists>g. files w' (out ! i) = Some g \<and>
          doc g = take (nat pages_per_split) (drop (i * nat pages_per_split) (doc f)) \<and>
          length (doc g) =
            (if i + 1 < length out then nat pages_per_split
             else length (doc f) - nat pages_per_split * (length out - 1))"
    using each unfolding src_def c_def by blast
  have other': "\<forall>p. p \<notin> set out \<longrightarrow> files w' p = files w p"
    using other by blast
  from run len dist saved each' other' show ?thesis by blast
qed

theorem split_chunks_count_witness:
  "files (disk ''dir/in.pdf'' [a4_page 1, a4_page 2, a4_page 3, a4_page 4, a4_page 5])
     ''dir/in.pdf'' =
     Some (stored [a4_page 1, a4_page 2, a4_page 3, a4_page 4, a4_page 5]) \<and>
   (1::int) \<le> 2 \<and>
   files (disk ''dir/in.pdf'' [a4_page 1, a4_page 2, a4_page 3, a4_page 4, a4_page 5]) ''out'' =
     None \<and>
   os_mkdir (disk ''dir/in.pdf'' [a4_page 1, a4_page 2, a4_page 3, a4_page 4, a4_page 5]) ''out'' =
     None \<and>
   (\<exists>out w'. split_pdf (disk ''dir/in.pdf''
                  [a4_page 1, a4_page 2, a4_page 3, a4_page 4, a4_page 5]) ''dir/in.pdf''
                ''out'' ''chunks'' 2 None = (Inr out, w') \<and>
       length out = 3 \<and>
       map_option doc (files w' (out ! 0)) = Some [a4_page 1, a4_page 2] \<and>
       map_option doc (files w' (out ! 1)) = Some [a4_page 3, a4_page 4] \<and>
       map_option doc (files w' (out ! 2)) = Some [a4_page 5])"
proof -
  let ?d = "[a4_page 1, a4_page 2, a4_page 3, a4_page 4, a4_page 5]"
  let ?w = "disk ''dir/in.pdf'' ?d"
  have h: "files ?w ''dir/in.pdf'' = Some (stored ?d)"
    by (simp add: disk_def)
  have c: "(1::int) \<le> 2" by simp
  have d: "doc (stored ?d) = ?d" by (simp add: stored_def)
  have five: "length (doc (stored ?d)) = 5" by (simp add: stored_def)
  have three: "nat \<lceil>real (length (doc (stored ?d))) / real_of_int 2\<rceil> = 3"
    unfolding five using ceiling_div_nat [of 2 5] by simp
  have h3: "''dir/in.pdf'' \<noteq> []" and h4: "''out'' \<noteq> []" by simp_all
  have h5: "files ?w ''out'' = None" and h6: "os_mkdir ?w ''out'' = None"
    by (simp_all add: disk_def)
  have h7: "\<forall>n. os_write ?w (path_join ''out''
                (splitext_root (basename ''dir/in.pdf'') @ ''_chunk_'' @ str_nat n @ ''.pdf'')) = None"
    by (simp add: disk_def)
  from split_chunks_count [OF h c h3 h4 h5 h6 h7, of None]
  obtain out w' where run: "split_pdf ?w ''dir/in.pdf'' ''out'' ''chunks'' 2 None = (Inr out, w')"
    and len: "length out = nat \<lceil>real (length (doc (stored ?d))) / real_of_int 2\<rceil>"
    and each: "\<forall>i<length out.
        \<exists>g. files w' (out ! i) = Some g \<and>
            doc g = take (nat 2) (drop (i * nat 2) (doc (stored ?d))) \<and>
            length (doc g) =
              (if i + 1 < length out then nat 2
               else length (doc (stored ?d)) - nat 2 * (length out - 1))"
    by blast
  from len three have l3: "length out = 3" by simp
  then have lt: "0 < length out" "1 < length out" "2 < length out" by simp_all
  from each [rule_format, OF lt(1)] each [rule_format, OF lt(2)] each [rule_format, OF lt(3)]
    run l3 h h5 h6 show ?thesis
    by (auto simp: stored_def)
qed

section \<open>delete_pages\<close>

lemma delete_1_3_of_five:
  assumes "files w input_pdf = Some f" and "doc f = [p1, p2, p3, p4, p5]"
    and "input_pdf \<noteq> []" and "output_pdf \<noteq> input_pdf" and "os_write w output_pdf = None"
  shows "\<exists>w' g. delete_pages w input_pdf output_pdf [1, 3] = (Inr (), w') \<and>
           files w' output_pdf = Some g \<and> doc g = [p2, p4, p5]"
  using assms
  by (simp add: delete_pages_def fitz_open_def doc_save_def store_def delete_page_def)

text \<open>For numbers that are all different and all pages of the document, the deletions
  from the end succeed; when they leave a page and the output path is not the input
  path, one document is saved.\<close>

lemma delete_loop_descending:
  assumes "sorted_wrt (\<lambda>a b. b < a) xs"
    and "\<forall>x\<in>set xs. 0 \<le> x \<and> x < int (length d)"
  shows "\<exists>d'. delete_loop d xs = Inr d' \<and> length d' = length d - length xs"
  using assms
proof (induction xs arbitrary: d)
  case Nil
  then show ?case by simp
next
  case (Cons x xs)
  let ?d1 = "take (nat x) d @ drop (Suc (nat x)) d"
  from Cons.prems(2) have x: "0 \<le> x" "x < int (length d)" by simp_all
  then have del: "delete_page d x = Inr ?d1" by (simp add: delete_page_def)
  have len1: "length ?d1 = length d - 1" using x by auto
  have s: "sorted_wrt (\<lambda>a b. b < a) xs" using Cons.prems(1) by simp
  have v: "\<forall>y\<in>set xs. 0 \<le> y \<and> y < int (length ?d1)"
  proof
    fix y assume y: "y \<in> set xs"
    with Cons.prems(1) have "y < x" by simp
    moreover from y Cons.prems(2) have "0 \<le> y" by simp
    ultimately show "0 \<le> y \<and> y < int (length ?d1)"
      using x unfolding len1 by linarith
  qed
  from Cons.IH [OF s v] obtain d' where "delete_loop ?d1 xs = Inr d'"
    and "length d' = length ?d1 - length xs" by blast
  with del len1 show ?case by simp
qed

lemma delete_pages_distinct_ok:
  assumes "files w input_pdf = Some f"
    and "distinct pages_to_delete"
    and "\<forall>p\<in>set pages_to_delete. 1 \<le> p \<and> p \<le> int (length (doc f))"
    and "length pages_to_delete < length (doc f)"
    and "input_pdf \<noteq> []" and "output_pdf \<noteq> input_pdf" and "os_write w output_pdf = None"
  shows "\<exists>w' g. delete_pages w input_pdf output_pdf pages_to_delete = (Inr (), w') \<and>
           files w' output_pdf = Some g \<and>
           length (doc g) = length (doc f) - length pages_to_delete"
proof -
  let ?xs = "rev (sort (map (\<lambda>p. p - 1) pages_to_delete))"
  have d: "distinct (map (\<lambda>p. p - 1) pages_to_delete)"
    using assms(2) by (simp add: distinct_map inj_on_def)
  then have "sorted_wrt (<) (sort (map (\<lambda>p. p - 1) pages_to_delete))"
    by (simp add: strict_sorted_iff)
  then have s: "sorted_wrt (\<lambda>a b. b < a) ?xs"
    by (simp add: sorted_wrt_rev)
  have v: "\<forall>x\<in>set ?xs. 0 \<le> x \<and> x < int (length (doc f))"
    using assms(3) by auto
  from delete_loop_descending [OF s v] obtain d' where
    loop: "delete_loop (doc f) ?xs = Inr d'" and len: "length d' = length (doc f) - length ?xs"
    by blast
  from len assms(4) have ne: "d' \<noteq> []" by auto
  let ?w1 = "w\<lparr>events := events w @ [Opened input_pdf]\<rparr>"
  have op: "fitz_open w input_pdf = (Inr (doc f), ?w1)"
    by (rule fitz_open_file [OF assms(5) assms(1)])
  have sv: "doc_save ?w1 input_pdf output_pdf d' default_save =
              (Inr (), store ?w1 output_pdf d' default_save)"
    using assms(6,7) ne by (intro doc_save_ok) simp_all
  from op sv loop validate_pages_ok [OF v] len show ?thesis
    by (simp add: delete_pages_def files_store Let_def)
qed

text \<open>
  C3. Deleting pages 1 and 3 of a document of five pages leaves pages 2, 4 and 5
  (\<open>delete_1_3_of_five\<close>), and a list of different numbers, each a page of the document
  and fewer than its pages, is deleted and the rest saved (\<open>delete_pages_distinct_ok\<close>).
  With a repeated number the call raises although every number is a page of the
  document: on five pages the list [5, 5] passes the validation, the first deletion
  leaves four pages, and the second deletion of index 4 raises, before anything is saved.
\<close>

theorem delete_pages_repeated_number:
  "fst (delete_pages (disk ''in.pdf'' (map a4_page [1, 2, 3, 4, 5])) ''in.pdf'' ''out.pdf'' [5, 5]) =
     Inl (ValueError ''bad page number(s)'') \<and>
   list_all (\<lambda>p. 1 \<le> p \<and> p \<le> int (length (map a4_page [1, 2, 3, 4, 5]))) [5, 5] \<and>
   saved_paths (events (snd (delete_pages (disk ''in.pdf'' (map a4_page [1, 2, 3, 4, 5]))
      ''in.pdf'' ''out.pdf'' [5, 5]))) = []"
  by (simp add: delete_pages_def fitz_open_def delete_page_def disk_def stored_def)

section \<open>Failures that leave the disk as it was\<close>

text \<open>Whenever one of these calls raises, no file has been saved: the files are those of
  before the call. For \<open>split_pdf\<close> this holds for an unknown mode and for missing
  ranges; in the modes \<open>pages\<close> and \<open>chunks\<close> nothing that the caller passes is checked
  once the first file is saved.\<close>

lemma doc_save_error_keeps:
  assumes "fst (doc_save w name path d opts) = Inl e"
  shows "snd (doc_save w name path d opts) = w"
  using doc_save_cases [of w name path d opts] assms by auto

lemma makedirs_error_keeps:
  assumes "fst (makedirs w folder) = Inl e"
  shows "snd (makedirs w folder) = w"
  using assms by (cases "os_mkdir w folder") (simp_all add: makedirs_def split: if_splits)

lemma merge_loop_keeps:
  "files (snd (merge_loop w d input_pdfs)) = files w \<and>
   saved_paths (events (snd (merge_loop w d input_pdfs))) = saved_paths (events w)"
proof (induction input_pdfs arbitrary: w d)
  case Nil
  then show ?case by simp
next
  case (Cons p ps)
  show ?case
  proof (cases "fitz_open w p")
    case (Pair r w1)
    then have w1: "w1 = w\<lparr>events := events w @ [Opened p]\<rparr>"
      by (auto simp: fitz_open_def)
    show ?thesis
    proof (cases r)
      case (Inl e)
      with Pair w1 show ?thesis by (simp add: saved_paths_append)
    next
      case (Inr src)
      with Pair w1 Cons.IH [of w1 "insert_pdf d src (- 1) (- 1)"] show ?thesis
        by (simp add: saved_paths_append)
    qed
  qed
qed

lemma merge_pdfs_error_no_write:
  assumes "fst (merge_pdfs w input_pdfs output_pdf) = Inl e"
  shows "files (snd (merge_pdfs w input_pdfs output_pdf)) = files w \<and>
         saved_paths (events (snd (merge_pdfs w input_pdfs output_pdf))) = saved_paths (events w)"
proof (cases "merge_loop w [] input_pdfs")
  case (Pair r w1)
  with merge_loop_keeps [of w "[]" input_pdfs]
  have k: "files w1 = files w" "saved_paths (events w1) = saved_paths (events w)" by simp_all
  show ?thesis
  proof (cases r)
    case (Inl e')
    with Pair k show ?thesis by (simp add: merge_pdfs_def)
  next
    case (Inr d)
    with Pair have m: "merge_pdfs w input_pdfs output_pdf = doc_save w1 [] output_pdf d default_save"
      by (simp add: merge_pdfs_def)
    with assms have "snd (merge_pdfs w input_pdfs output_pdf) = w1"
      by (simp add: doc_save_error_keeps)
    with k show ?thesis by simp
  qed
qed

lemma delete_pages_error_no_write:
  assumes "fst (delete_pages w input_pdf output_pdf pages_to_delete) = Inl e"
  shows "files (snd (delete_pages w input_pdf output_pdf pages_to_delete)) = files w \<and>
         saved_paths (events (snd (delete_pages w input_pdf output_pdf pages_to_delete))) =
           saved_paths (events w)"
proof -
  let ?w1 = "snd (fitz_open w input_pdf)"
  have k: "files ?w1 = files w" "saved_paths (events ?w1) = saved_paths (events w)"
    by (simp_all add: files_fitz_open events_fitz_open saved_paths_append)
  have "snd (delete_pages w input_pdf output_pdf pages_to_delete) = ?w1"
    using assms
    by (auto simp: delete_pages_def Let_def doc_save_error_keeps
        split: sum.splits prod.splits)
  with k show ?thesis by simp
qed

lemma rotate_pages_error_no_write:
  assumes "fst (rotate_pages w input_pdf output_pdf rotation pages) = Inl e"
  shows "files (snd (rotate_pages w input_pdf output_pdf rotation pages)) = files w \<and>
         saved_paths (events (snd (rotate_pages w input_pdf output_pdf rotation pages))) =
           saved_paths (events w)"
proof (cases "rotation \<notin> set [90, 180, 270, - 90, - 180, - 270]")
  case True
  then have "rotate_pages w input_pdf output_pdf rotation pages = (Inl (ValueError rotation_msg), w)"
    unfolding rotate_pages_def by (rule if_P)
  then show ?thesis by simp
next
  case False
  let ?w1 = "snd (fitz_open w input_pdf)"
  have k: "files ?w1 = files w" "saved_paths (events ?w1) = saved_paths (events w)"
    by (simp_all add: files_fitz_open events_fitz_open saved_paths_append)
  from False have "rotate_pages w input_pdf output_pdf rotation pages =
      (case fitz_open w input_pdf of
         (Inl e, w1) \<Rightarrow> (Inl e, w1)
       | (Inr d, w1) \<Rightarrow>
           (case select_pages_to_rotate (length d) pages of
              Inl e \<Rightarrow> (Inl e, w1)
            | Inr pages_to_rotate \<Rightarrow>
                (case rotate_loop d rotation pages_to_rotate of
                   Inl e \<Rightarrow> (Inl e, w1)
                 | Inr d' \<Rightarrow> doc_save w1 input_pdf output_pdf d' default_save)))"
    unfolding rotate_pages_def by (rule if_not_P)
  with assms have "snd (rotate_pages w input_pdf output_pdf rotation pages) = ?w1"
    by (auto simp: doc_save_error_keeps split: sum.splits prod.splits)
  with k show ?thesis by simp
qed

lemma compress_pdf_error_no_write:
  assumes "fst (compress_pdf w input_pdf output_pdf compression_level) = Inl e"
  shows "files (snd (compress_pdf w input_pdf output_pdf compression_level)) = files w \<and>
         saved_paths (events (snd (compress_pdf w input_pdf output_pdf compression_level))) =
           saved_paths (events w)"
proof (cases "compression_settings compression_level")
  case None
  then show ?thesis by (simp add: compress_pdf_def)
next
  case (Some settings)
  let ?w1 = "snd (fitz_open w input_pdf)"
  have k: "files ?w1 = files w" "saved_paths (events ?w1) = saved_paths (events w)"
    by (simp_all add: files_fitz_open events_fitz_open saved_paths_append)
  have "snd (compress_pdf w input_pdf output_pdf compression_level) = ?w1"
    using assms Some
    by (auto simp: compress_pdf_def doc_save_error_keeps split: sum.splits prod.splits)
  with k show ?thesis by simp
qed

lemma add_page_numbers_error_no_write:
  assumes "fst (add_page_numbers format w input_pdf output_pdf position font_size color
                  format_string start_number pages) = Inl e"
  shows "files (snd (add_page_numbers format w input_pdf output_pdf position font_size color
                  format_string start_number pages)) = files w \<and>
         saved_paths (events (snd (add_page_numbers format w input_pdf output_pdf position
                  font_size color format_string start_number pages))) = saved_paths (events w)"
proof -
  let ?w1 = "snd (fitz_open w input_pdf)"
  have k: "files ?w1 = files w" "saved_paths (events ?w1) = saved_paths (events w)"
    by (simp_all add: files_fitz_open events_fitz_open saved_paths_append)
  have "snd (add_page_numbers format w input_pdf output_pdf position font_size color
               format_string start_number pages) = ?w1"
    using assms
    by (auto simp: add_page_numbers_def doc_save_error_keeps split: sum.splits prod.splits)
  with k show ?thesis by simp
qed

lemma create_nup_error_no_write:
  assumes "fst (create_nup w input_pdf output_pdf n_cols n_rows orientation) = Inl e"
  shows "files (snd (create_nup w input_pdf output_pdf n_cols n_rows orientation)) = files w \<and>
         saved_paths (events (snd (create_nup w input_pdf output_pdf n_cols n_rows
           orientation))) = saved_paths (events w)"
proof -
  let ?w1 = "snd (fitz_open w input_pdf)"
  have k: "files ?w1 = files w" "saved_paths (events ?w1) = saved_paths (events w)"
    by (simp_all add: files_fitz_open events_fitz_open saved_paths_append)
  have "snd (create_nup w input_pdf output_pdf n_cols n_rows orientation) = ?w1"
    using assms
    by (auto simp: create_nup_def Let_def doc_save_error_keeps
        split: sum.splits prod.splits list.splits if_splits)
  with k show ?thesis by simp
qed

lemma split_pdf_error_no_write:
  assumes "fst (split_pdf w input_pdf output_folder mode pages_per_split page_ranges) = Inl e"
    and "mode \<noteq> ''pages''" and "mode \<noteq> ''chunks''"
    and "mode \<noteq> ''range'' \<or> page_ranges = None \<or> page_ranges = Some []"
  shows "files (snd (split_pdf w input_pdf output_folder mode pages_per_split page_ranges)) =
           files w \<and>
         saved_paths (events (snd (split_pdf w input_pdf output_folder mode pages_per_split
           page_ranges))) = saved_paths (events w)"
proof -
  let ?w1 = "snd (fitz_open w input_pdf)"
  let ?w2 = "snd (makedirs ?w1 output_folder)"
  have k: "files ?w1 = files w" "saved_paths (events ?w1) = saved_paths (events w)"
    by (simp_all add: files_fitz_open events_fitz_open saved_paths_append)
  have k2: "files ?w2 = files w" "saved_paths (events ?w2) = saved_paths (events w)"
    using makedirs_no_save [of ?w1 output_folder] k by simp_all
  have "snd (split_pdf w input_pdf output_folder mode pages_per_split page_ranges) = ?w1 \<or>
        snd (split_pdf w input_pdf output_folder mode pages_per_split page_ranges) = ?w2"
    using assms
    by (auto simp: split_pdf_def Let_def split: sum.splits prod.splits option.splits list.splits)
  with k k2 show ?thesis by auto
qed

section \<open>split_pdf by ranges: files saved before the failure\<close>

text \<open>
  C1. In mode \<open>range\<close> each pair is checked when its turn comes, after the files of the
  pairs before it have been saved. On a document of two pages, the ranges (0, 0), (0, 5)
  raise the ValueError for (0, 5) with the file of (0, 0) saved, a file that was not on
  the disk before the call.
\<close>

theorem split_range_partial_write:
  "fst (split_pdf (disk ''dir/in.pdf'' [a4_page 1, a4_page 2]) ''dir/in.pdf'' ''out'' ''range'' 1
         (Some [(0, 0), (0, 5)])) =
     Inl (ValueError ''Invalid range (0, 5). PDF has 2 pages (0-1)'') \<and>
   saved_paths (events (snd (split_pdf (disk ''dir/in.pdf'' [a4_page 1, a4_page 2]) ''dir/in.pdf''
         ''out'' ''range'' 1 (Some [(0, 0), (0, 5)])))) = [''out/in_range_1.pdf''] \<and>
   map_option doc (files (snd (split_pdf (disk ''dir/in.pdf'' [a4_page 1, a4_page 2])
         ''dir/in.pdf'' ''out'' ''range'' 1 (Some [(0, 0), (0, 5)]))) ''out/in_range_1.pdf'') =
     Some [a4_page 1] \<and>
   files (disk ''dir/in.pdf'' [a4_page 1, a4_page 2]) ''out/in_range_1.pdf'' = None"
  by (simp add: split_pdf_def fitz_open_def doc_save_def store_def makedirs_def disk_def stored_def
        basename_def splitext_root_def path_join_def insert_pdf_def page_span_def
        invalid_range_msg_def str_int_def str_nat.simps digit_char_def enumerate_eq_zip
        saved_paths_append Let_def)

section \<open>add_page_numbers on a list of pages\<close>

lemma number_point_stamped:
  "number_point position (stamped page point page_text font_size color) =
   number_point position page"
  by (simp add: number_point_def stamped_def rect_width_def rect_height_def)

lemma insert_text_ok:
  "\<not> draws_nothing page_text \<Longrightarrow> color_in_range color \<Longrightarrow>
   insert_text page point page_text font_size color =
     Inr (stamped page point page_text font_size color)"
  by (simp add: insert_text_def)

lemma number_point_valid:
  assumes "position \<in> set [''bottom-right'', ''bottom-center'', ''bottom-left'', ''top-right'',
                             ''top-center'', ''top-left'']"
  shows "\<exists>pt. number_point position page = Inr pt"
proof -
  from assms have "position = ''bottom-right'' \<or> position = ''bottom-center'' \<or>
      position = ''bottom-left'' \<or> position = ''top-right'' \<or> position = ''top-center'' \<or>
      position = ''top-left''"
    by (simp only: list.set insert_iff empty_iff simp_thms)
  then have "number_point position page = Inr (projr (number_point position page))"
    by (elim disjE) (simp_all add: number_point_def)
  then show ?thesis ..
qed

lemma map_filter_upt_Suc:
  "map g (filter P [0..<Suc n]) =
   (if P 0 then [g 0] else []) @ map (g \<circ> Suc) (filter (P \<circ> Suc) [0..<n])"
  by (subst upt_0_Suc) (simp add: filter_map)

lemma number_loop_stamps:
  assumes "\<forall>q\<in>set qs. 0 \<le> q \<and> q < int (length d)"
    and "\<forall>page. \<exists>pt. number_point position page = Inr pt"
    and "\<forall>i<length qs.
           format format_string [(''page'', start_number + int (k + i)), (''total'', int n)] =
           Inr (label (k + i)) \<and> \<not> draws_nothing (label (k + i))"
    and "color_in_range color"
  shows "\<exists>d'. number_loop format d position font_size color format_string start_number n
                (List.enumerate k qs) = Inr d' \<and>
              length d' = length d \<and>
              (\<forall>j<length d. \<exists>pt. number_point position (d ! j) = Inr pt \<and>
                 d' ! j =
                   Page (content (d ! j)) (box_width (d ! j)) (box_height (d ! j))
                     (page_rotation (d ! j))
                     (drawn (d ! j) @
                      map (\<lambda>i. InsertedText pt (label (k + i)) font_size color)
                        (filter (\<lambda>i. qs ! i = int j) [0..<length qs])))"
  using assms
proof (induction qs arbitrary: d k)
  case Nil
  then show ?case by simp
next
  case (Cons q qs)
  let ?page = "d ! nat q"
  from Cons.prems(1) have q: "0 \<le> q" "q < int (length d)" by simp_all
  from Cons.prems(2) obtain pt0 where pt0: "number_point position ?page = Inr pt0" by blast
  from Cons.prems(3) have f0:
    "format format_string [(''page'', start_number + int k), (''total'', int n)] = Inr (label k)"
    and t0: "\<not> draws_nothing (label k)"
    by force+
  have it: "insert_text ?page pt0 (label k) font_size color =
            Inr (stamped ?page pt0 (label k) font_size color)"
    using t0 Cons.prems(4) by (rule insert_text_ok)
  let ?d1 = "d[nat q := stamped ?page pt0 (label k) font_size color]"
  have v1: "\<forall>q\<in>set qs. 0 \<le> q \<and> q < int (length ?d1)"
    using Cons.prems(1) by simp
  have f1: "\<forall>i<length qs.
      format format_string [(''page'', start_number + int (Suc k + i)), (''total'', int n)] =
      Inr (label (Suc k + i)) \<and> \<not> draws_nothing (label (Suc k + i))"
  proof (intro allI impI)
    fix i assume "i < length qs"
    then have "Suc i < length (q # qs)" by simp
    with Cons.prems(3) have
      "format format_string [(''page'', start_number + int (k + Suc i)), (''total'', int n)] =
       Inr (label (k + Suc i)) \<and> \<not> draws_nothing (label (k + Suc i))" by blast
    then show "format format_string
        [(''page'', start_number + int (Suc k + i)), (''total'', int n)] = Inr (label (Suc k + i)) \<and>
        \<not> draws_nothing (label (Suc k + i))"
      by simp
  qed
  from Cons.IH [OF v1 Cons.prems(2) f1 Cons.prems(4)]
  obtain d' where loop: "number_loop format ?d1 position font_size color format_string
        start_number n (List.enumerate (Suc k) qs) = Inr d'"
    and len: "length d' = length ?d1"
    and each: "\<forall>j<length ?d1. \<exists>pt. number_point position (?d1 ! j) = Inr pt \<and>
        d' ! j =
          Page (content (?d1 ! j)) (box_width (?d1 ! j)) (box_height (?d1 ! j))
            (page_rotation (?d1 ! j))
            (drawn (?d1 ! j) @
             map (\<lambda>i. InsertedText pt (label (Suc k + i)) font_size color)
               (filter (\<lambda>i. qs ! i = int j) [0..<length qs]))"
    by blast
  have run: "number_loop format d position font_size color format_string start_number n
        (List.enumerate k (q # qs)) = Inr d'"
    using q pt0 f0 it loop by (simp add: Let_def)
  have "\<exists>pt. number_point position (d ! j) = Inr pt \<and>
        d' ! j =
          Page (content (d ! j)) (box_width (d ! j)) (box_height (d ! j))
            (page_rotation (d ! j))
            (drawn (d ! j) @
             map (\<lambda>i. InsertedText pt (label (k + i)) font_size color)
               (filter (\<lambda>i. (q # qs) ! i = int j) [0..<length (q # qs)]))"
    if j: "j < length d" for j
  proof -
    from j have "j < length ?d1" by simp
    with each obtain pt where pt: "number_point position (?d1 ! j) = Inr pt"
      and dj: "d' ! j =
          Page (content (?d1 ! j)) (box_width (?d1 ! j)) (box_height (?d1 ! j))
            (page_rotation (?d1 ! j))
            (drawn (?d1 ! j) @
             map (\<lambda>i. InsertedText pt (label (Suc k + i)) font_size color)
               (filter (\<lambda>i. qs ! i = int j) [0..<length qs]))"
      by blast
    have shift: "map (\<lambda>i. InsertedText pt (label (k + i)) font_size color)
               (filter (\<lambda>i. (q # qs) ! i = int j) [0..<length (q # qs)]) =
          (if q = int j then [InsertedText pt (label k) font_size color] else []) @
          map (\<lambda>i. InsertedText pt (label (Suc k + i)) font_size color)
               (filter (\<lambda>i. qs ! i = int j) [0..<length qs])"
      by (simp add: map_filter_upt_Suc comp_def del: upt_Suc)
    show ?thesis
    proof (cases "q = int j")
      case True
      then have nq: "nat q = j" by simp
      from pt nq j have pt_eq: "pt = pt0"
        using pt0 by (simp add: number_point_stamped)
      have "number_point position (d ! j) = Inr pt"
        using pt0 nq pt_eq by simp
      moreover have "d' ! j =
          Page (content (d ! j)) (box_width (d ! j)) (box_height (d ! j))
            (page_rotation (d ! j))
            (drawn (d ! j) @
             map (\<lambda>i. InsertedText pt (label (k + i)) font_size color)
               (filter (\<lambda>i. (q # qs) ! i = int j) [0..<length (q # qs)]))"
        unfolding shift using dj nq j True pt_eq by (simp add: stamped_def)
      ultimately show ?thesis by blast
    next
      case False
      with q have nq: "nat q \<noteq> j" by auto
      then have same: "?d1 ! j = d ! j" by simp
      have "number_point position (d ! j) = Inr pt" using pt same by simp
      moreover have "d' ! j =
          Page (content (d ! j)) (box_width (d ! j)) (box_height (d ! j))
            (page_rotation (d ! j))
            (drawn (d ! j) @
             map (\<lambda>i. InsertedText pt (label (k + i)) font_size color)
               (filter (\<lambda>i. (q # qs) ! i = int j) [0..<length (q # qs)]))"
        unfolding shift using dj same False by simp
      ultimately show ?thesis by blast
    qed
  qed
  with run len show ?case by auto
qed

lemma plain_format_page_of_total:
  "plain_format ''{page} of {total}'' [(''page'', a), (''total'', b)] =
   Inr (str_int a @ '' of '' @ str_int b)"
  by (simp add: plain_format_def lookup_field_def then_append_def name_char_def)

text \<open>
  C9. With an explicit list of valid 1-based pages, a valid position, a colour in range,
  a format string that formats to texts that draw something, and an output path other
  than the input path that the operating system lets the call write,
  \<open>add_page_numbers\<close> saves the document with one more text on a page for each place the
  page has in the list: the entry at index idx (from 0) stamps its page with the format
  applied to \<open>page = start_number + idx\<close> and \<open>total = len(pages)\<close>, the length of the
  list and not the page count of the document. Nothing else changes. This holds for every
  function \<open>format\<close>, so for Python's own with all of its format language.
\<close>

theorem add_page_numbers_explicit_list:
  assumes "files w input_pdf = Some f"
    and "input_pdf \<noteq> []"
    and "doc f \<noteq> []"
    and "output_pdf \<noteq> input_pdf"
    and "os_write w output_pdf = None"
    and "\<forall>p\<in>set ps. 1 \<le> p \<and> p \<le> int (length (doc f))"
    and "position \<in> set [''bottom-right'', ''bottom-center'', ''bottom-left'', ''top-right'',
                           ''top-center'', ''top-left'']"
    and "color_in_range color"
    and "\<forall>idx<length ps.
           format format_string
             [(''page'', start_number + int idx), (''total'', int (length ps))] =
           Inr (label idx) \<and> \<not> draws_nothing (label idx)"
  shows "\<exists>w' g. add_page_numbers format w input_pdf output_pdf position font_size color
                  format_string start_number (PList ps) = (Inr (), w') \<and>
           files w' output_pdf = Some g \<and>
           length (doc g) = length (doc f) \<and>
           (\<forall>j<length (doc f).
              \<exists>pt. number_point position (doc f ! j) = Inr pt \<and>
                doc g ! j =
                  Page (content (doc f ! j)) (box_width (doc f ! j)) (box_height (doc f ! j))
                    (page_rotation (doc f ! j))
                    (drawn (doc f ! j) @
                     map (\<lambda>idx. InsertedText pt (label idx) font_size color)
                       (filter (\<lambda>idx. ps ! idx - 1 = int j) [0..<length ps])))"
proof -
  let ?qs = "map (\<lambda>p. p - 1) ps"
  have v: "\<forall>q\<in>set ?qs. 0 \<le> q \<and> q < int (length (doc f))"
    using assms(6) by auto
  have sel: "select_pages_to_number (length (doc f)) (PList ps) = Inr ?qs"
    using validate_pages_ok [OF v]
    by (simp add: select_pages_to_number_def zero_based_def)
  have p: "\<forall>page. \<exists>pt. number_point position page = Inr pt"
    using number_point_valid [OF assms(7)] by blast
  have fm: "\<forall>i<length ?qs.
      format format_string
        [(''page'', start_number + int (0 + i)), (''total'', int (length ?qs))] =
      Inr (label (0 + i)) \<and> \<not> draws_nothing (label (0 + i))"
    using assms(9) by simp
  from number_loop_stamps [where format = format and label = label and k = 0 and font_size = font_size,
      OF v p fm assms(8)]
  obtain d' where loop: "number_loop format (doc f) position font_size color format_string
        start_number (length ?qs) (List.enumerate 0 ?qs) = Inr d'"
    and len: "length d' = length (doc f)"
    and each: "\<forall>j<length (doc f). \<exists>pt. number_point position (doc f ! j) = Inr pt \<and>
        d' ! j =
          Page (content (doc f ! j)) (box_width (doc f ! j)) (box_height (doc f ! j))
            (page_rotation (doc f ! j))
            (drawn (doc f ! j) @
             map (\<lambda>i. InsertedText pt (label (0 + i)) font_size color)
               (filter (\<lambda>i. ?qs ! i = int j) [0..<length ?qs]))"
    by blast
  have flt: "filter (\<lambda>i. ?qs ! i = int j) [0..<length ps] =
             filter (\<lambda>idx. ps ! idx - 1 = int j) [0..<length ps]" for j
    by (rule filter_cong) simp_all
  let ?w1 = "w\<lparr>events := events w @ [Opened input_pdf]\<rparr>"
  let ?w' = "store ?w1 output_pdf d' default_save"
  have op: "fitz_open w input_pdf = (Inr (doc f), ?w1)"
    by (rule fitz_open_file [OF assms(2) assms(1)])
  from len assms(3) have ne: "d' \<noteq> []" by auto
  have sv: "doc_save ?w1 input_pdf output_pdf d' default_save = (Inr (), ?w')"
    using assms(4,5) ne by (intro doc_save_ok) simp_all
  have run: "add_page_numbers format w input_pdf output_pdf position font_size color
        format_string start_number (PList ps) = (Inr (), ?w')"
    using op sel loop sv by (simp add: add_page_numbers_def)
  have out: "files ?w' output_pdf = Some \<lparr>doc = d', saved_with = default_save\<rparr>"
    by (simp add: files_store)
  from each have each': "\<forall>j<length (doc f).
      \<exists>pt. number_point position (doc f ! j) = Inr pt \<and>
        d' ! j =
          Page (content (doc f ! j)) (box_width (doc f ! j)) (box_height (doc f ! j))
            (page_rotation (doc f ! j))
            (drawn (doc f ! j) @
             map (\<lambda>idx. InsertedText pt (label idx) font_size color)
               (filter (\<lambda>idx. ps ! idx - 1 = int j) [0..<length ps]))"
    by (simp add: flt)
  from run out len each' show ?thesis by simp
qed

theorem add_page_numbers_explicit_list_witness:
  "files (disk ''in.pdf'' (map a4_page [1, 2, 3, 4, 5])) ''in.pdf'' =
     Some (stored (map a4_page [1, 2, 3, 4, 5])) \<and>
   list_all (\<lambda>p. 1 \<le> p \<and> p \<le> int (length (doc (stored (map a4_page [1, 2, 3, 4, 5])))))
     [2, 4] \<and>
   ''out.pdf'' \<noteq> ''in.pdf'' \<and>
   os_write (disk ''in.pdf'' (map a4_page [1, 2, 3, 4, 5])) ''out.pdf'' = None \<and>
   color_in_range (0, 0, 0) \<and>
   plain_format ''{page} of {total}''
     [(''page'', 1 + int 0), (''total'', int (length [2, 4 :: int]))] = Inr ''1 of 2'' \<and>
   plain_format ''{page} of {total}''
     [(''page'', 1 + int 1), (''total'', int (length [2, 4 :: int]))] = Inr ''2 of 2'' \<and>
   (\<exists>w' g. add_page_numbers plain_format (disk ''in.pdf'' (map a4_page [1, 2, 3, 4, 5])) ''in.pdf'' ''out.pdf''
             ''bottom-right'' 10 (0, 0, 0) ''{page} of {total}'' 1 (PList [2, 4]) = (Inr (), w') \<and>
       files w' ''out.pdf'' = Some g \<and>
       map drawn (doc g) =
         [[], [InsertedText (565, 812) ''1 of 2'' 10 (0, 0, 0)], [],
          [InsertedText (565, 812) ''2 of 2'' 10 (0, 0, 0)], []])"
proof -
  let ?d = "map a4_page [1, 2, 3, 4, 5]"
  let ?label = "\<lambda>idx. [''1 of 2'', ''2 of 2''] ! idx"
  have h1: "files (disk ''in.pdf'' ?d) ''in.pdf'' = Some (stored ?d)"
    by (simp add: disk_def)
  have len5: "length (doc (stored ?d)) = 5" by (simp add: stored_def)
  have h2: "\<forall>p\<in>set [2, 4 :: int]. 1 \<le> p \<and> p \<le> int (length (doc (stored ?d)))"
    unfolding len5 by simp
  have h3: "''bottom-right'' \<in> set [''bottom-right'', ''bottom-center'', ''bottom-left'',
      ''top-right'', ''top-center'', ''top-left'']"
    by simp
  have f0: "plain_format ''{page} of {total}''
        [(''page'', 1 + int 0), (''total'', int (length [2, 4 :: int]))] = Inr ''1 of 2''"
    by (simp add: plain_format_page_of_total str_int_def str_nat.simps digit_char_def)
  have f1: "plain_format ''{page} of {total}''
        [(''page'', 1 + int 1), (''total'', int (length [2, 4 :: int]))] = Inr ''2 of 2''"
    by (simp add: plain_format_page_of_total str_int_def str_nat.simps digit_char_def)
  have h4: "\<forall>idx<length [2, 4 :: int].
      plain_format ''{page} of {total}''
        [(''page'', 1 + int idx), (''total'', int (length [2, 4 :: int]))] = Inr (?label idx) \<and>
      \<not> draws_nothing (?label idx)"
  proof (intro allI impI)
    fix idx assume "idx < length [2, 4 :: int]"
    then have "idx = 0 \<or> idx = 1" by auto
    then show "plain_format ''{page} of {total}''
        [(''page'', 1 + int idx), (''total'', int (length [2, 4 :: int]))] = Inr (?label idx) \<and>
        \<not> draws_nothing (?label idx)"
      using f0 f1 by (auto simp: draws_nothing_def line_breaks_def)
  qed
  have g1: "''in.pdf'' \<noteq> []" and g3: "''out.pdf'' \<noteq> ''in.pdf''" by simp_all
  have g2: "doc (stored ?d) \<noteq> []" by (simp add: stored_def)
  have g4: "os_write (disk ''in.pdf'' ?d) ''out.pdf'' = None" by (simp add: disk_def)
  have g5: "color_in_range (0, 0, 0)" by (simp add: color_in_range_def)
  from add_page_numbers_explicit_list [where format = plain_format and label = "?label" and
      font_size = 10, OF h1 g1 g2 g3 g4 h2 h3 g5 h4]
  obtain w' g where run: "add_page_numbers plain_format (disk ''in.pdf'' ?d) ''in.pdf'' ''out.pdf''
        ''bottom-right'' 10 (0, 0, 0) ''{page} of {total}'' 1 (PList [2, 4]) = (Inr (), w')"
    and out: "files w' ''out.pdf'' = Some g"
    and len: "length (doc g) = length (doc (stored ?d))"
    and each: "\<forall>j<length (doc (stored ?d)).
        \<exists>pt. number_point ''bottom-right'' (doc (stored ?d) ! j) = Inr pt \<and>
          doc g ! j =
            Page (content (doc (stored ?d) ! j)) (box_width (doc (stored ?d) ! j))
              (box_height (doc (stored ?d) ! j)) (page_rotation (doc (stored ?d) ! j))
              (drawn (doc (stored ?d) ! j) @
               map (\<lambda>idx. InsertedText pt (?label idx) 10 (0, 0, 0))
                 (filter (\<lambda>idx. [2, 4] ! idx - 1 = int j) [0..<length [2, 4 :: int]]))"
    by blast
  have lt: "0 < length (doc (stored ?d))" "1 < length (doc (stored ?d))"
    "2 < length (doc (stored ?d))" "3 < length (doc (stored ?d))" "4 < length (doc (stored ?d))"
    unfolding len5 by simp_all
  have np: "number_point ''bottom-right'' (a4_page k) = Inr (565, 812)" for k
    by (simp add: number_point_def a4_page_def rect_width_def rect_height_def number_margin_def)
  have u2: "[0..<length [2, 4 :: int]] = [0, 1]" by (simp add: upt_conv_Cons)
  have d0: "drawn (doc g ! 0) = []"
    using each [rule_format, OF lt(1)] by (auto simp: stored_def u2 np a4_page_def)
  have d1: "drawn (doc g ! 1) = [InsertedText (565, 812) ''1 of 2'' 10 (0, 0, 0)]"
    using each [rule_format, OF lt(2)] by (auto simp: stored_def u2 np) (simp add: a4_page_def)
  have d2: "drawn (doc g ! 2) = []"
    using each [rule_format, OF lt(3)] by (auto simp: stored_def u2 np a4_page_def)
  have d3: "drawn (doc g ! 3) = [InsertedText (565, 812) ''2 of 2'' 10 (0, 0, 0)]"
    using each [rule_format, OF lt(4)] by (auto simp: stored_def u2 np) (simp add: a4_page_def)
  have d4: "drawn (doc g ! 4) = []"
    using each [rule_format, OF lt(5)] by (auto simp: stored_def u2 np a4_page_def)
  have l5: "length (doc g) = 5" using len len5 by simp
  have "map drawn (doc g) =
         [[], [InsertedText (565, 812) ''1 of 2'' 10 (0, 0, 0)], [],
          [InsertedText (565, 812) ''2 of 2'' 10 (0, 0, 0)], []]"
    using l5 d0 d1 d2 d3 d4
    by (intro nth_equalityI) (auto simp: less_Suc_eq numeral_eq_Suc)
  with run out h1 h2 f0 f1 g3 g4 g5 show ?thesis
    by (auto simp: list_all_iff)
qed

section \<open>create_nup\<close>

lemma takeWhile_less_upt: "takeWhile (\<lambda>c. c < m) [0..<n] = [0..<min n m]"
proof (induction n)
  case 0
  then show ?case by simp
next
  case (Suc n)
  show ?case
  proof (cases "n \<le> m")
    case True
    then have "x < m" if "x \<in> set [0..<n]" for x using that by auto
    then have "takeWhile (\<lambda>c. c < m) ([0..<n] @ [n]) = [0..<n] @ takeWhile (\<lambda>c. c < m) [n]"
      by (rule takeWhile_append2)
    with True show ?thesis by (cases "n < m") (simp_all add: min_def)
  next
    case False
    then have "m \<in> set [0..<n]" "\<not> m < m" by auto
    then have "takeWhile (\<lambda>c. c < m) ([0..<n] @ [n]) = takeWhile (\<lambda>c. c < m) [0..<n]"
      by (intro takeWhile_append1)
    with Suc False show ?thesis by (simp add: min_def)
  qed
qed

lemma takeWhile_add_less_upt:
  "takeWhile (\<lambda>col. b + col < (L::nat)) [0..<n] = [0..<min n (L - b)]"
proof -
  have "(\<lambda>col. b + col < L) = (\<lambda>c. c < L - b)" by auto
  then show ?thesis by (simp add: takeWhile_less_upt)
qed

lemma show_pdf_page_ok:
  assumes "0 < sw" and "0 < sh" and "k < length src"
    and "\<forall>p\<in>set src. has_contents p \<and> 0 < rect_width p \<and> 0 < rect_height p"
  shows "show_pdf_page sheet (cell_rect sw sh row col) src k =
     Inr (Page (content sheet) (box_width sheet) (box_height sheet) (page_rotation sheet)
            (drawn sheet @ [ShownPage (cell_rect sw sh row col) (src ! k)]))"
proof -
  have "\<not> rect_is_empty (cell_rect sw sh row col)"
    using assms(1,2) by (simp add: rect_is_empty_def cell_rect_def Let_def)
  moreover from assms(3,4) have "has_contents (src ! k)" "0 < rect_width (src ! k)"
    "0 < rect_height (src ! k)"
    by simp_all
  ultimately show ?thesis by (simp add: show_pdf_page_def)
qed

text \<open>One row: the columns are filled from the left as far as the source goes.\<close>

lemma nup_cols_drawn:
  assumes "0 < sw" and "0 < sh" and "0 \<le> n_cols"
    and "\<forall>p\<in>set src. has_contents p \<and> 0 < rect_width p \<and> 0 < rect_height p"
  shows "nup_cols src sheet i row n_cols sw sh cols =
     Inr (Page (content sheet) (box_width sheet) (box_height sheet) (page_rotation sheet)
            (drawn sheet @
             map (\<lambda>col. ShownPage (cell_rect sw sh row col) (src ! (i + row * nat n_cols + col)))
               (takeWhile (\<lambda>col. i + row * nat n_cols + col < length src) cols)))"
proof (induction cols arbitrary: sheet)
  case Nil
  then show ?case by simp
next
  case (Cons col cols)
  define k where "k = i + row * nat n_cols + col"
  have idx: "int i + int row * n_cols + int col = int k"
    using assms(3) by (simp add: k_def)
  show ?case
  proof (cases "k < length src")
    case False
    then show ?thesis
      using idx by (simp add: Let_def k_def [symmetric])
  next
    case True
    let ?sheet' = "Page (content sheet) (box_width sheet) (box_height sheet) (page_rotation sheet)
            (drawn sheet @ [ShownPage (cell_rect sw sh row col) (src ! k)])"
    have sp: "show_pdf_page sheet (cell_rect sw sh row col) src k = Inr ?sheet'"
      by (rule show_pdf_page_ok [OF assms(1,2) True assms(4)])
    have step: "nup_cols src sheet i row n_cols sw sh (col # cols) =
                nup_cols src ?sheet' i row n_cols sw sh cols"
      using True idx sp by (simp add: Let_def)
    show ?thesis
      unfolding step Cons.IH using True by (simp add: k_def)
  qed
qed

text \<open>One sheet: row after row.\<close>

lemma nup_rows_drawn:
  assumes "0 < sw" and "0 < sh" and "0 \<le> n_cols"
    and "\<forall>p\<in>set src. has_contents p \<and> 0 < rect_width p \<and> 0 < rect_height p"
  shows "nup_rows src sheet i n_cols sw sh rows =
     Inr (Page (content sheet) (box_width sheet) (box_height sheet) (page_rotation sheet)
            (drawn sheet @
             concat
               (map (\<lambda>row.
                       map (\<lambda>col. ShownPage (cell_rect sw sh row col)
                                     (src ! (i + row * nat n_cols + col)))
                         [0..<min (nat n_cols) (length src - (i + row * nat n_cols))])
                  rows)))"
proof (induction rows arbitrary: sheet)
  case Nil
  then show ?case by simp
next
  case (Cons row rows)
  let ?ds = "map (\<lambda>col. ShownPage (cell_rect sw sh row col) (src ! (i + row * nat n_cols + col)))
               [0..<min (nat n_cols) (length src - (i + row * nat n_cols))]"
  let ?sheet' = "Page (content sheet) (box_width sheet) (box_height sheet) (page_rotation sheet)
            (drawn sheet @ ?ds)"
  have "nup_cols src sheet i row n_cols sw sh [0..<nat n_cols] = Inr ?sheet'"
    unfolding nup_cols_drawn [OF assms] takeWhile_add_less_upt ..
  then have step: "nup_rows src sheet i n_cols sw sh (row # rows) =
                   nup_rows src ?sheet' i n_cols sw sh rows"
    by simp
  show ?case
    unfolding step Cons.IH by simp
qed

text \<open>The sheets: one new page of the output for each start.\<close>

lemma nup_sheets_eq:
  assumes "0 < sw" and "0 < sh" and "0 \<le> n_cols"
    and "\<forall>p\<in>set src. has_contents p \<and> 0 < rect_width p \<and> 0 < rect_height p"
  shows "nup_sheets src d W H n_cols n_rows sw sh starts =
     Inr (d @ map (\<lambda>i. Page None (of_int W) (of_int H) 0
                          (sheet_layout src sw sh (nat n_cols) (nat n_rows) i)) starts)"
proof (induction starts arbitrary: d)
  case Nil
  then show ?case by simp
next
  case (Cons i starts)
  have "nup_rows src (new_page (of_int W) (of_int H)) i n_cols sw sh [0..<nat n_rows] =
        Inr (Page None (of_int W) (of_int H) 0 (sheet_layout src sw sh (nat n_cols) (nat n_rows) i))"
    unfolding nup_rows_drawn [OF assms] by (simp add: new_page_def sheet_layout_def)
  then have step: "nup_sheets src d W H n_cols n_rows sw sh (i # starts) =
      nup_sheets src
        (d @ [Page None (of_int W) (of_int H) 0 (sheet_layout src sw sh (nat n_cols) (nat n_rows) i)])
        W H n_cols n_rows sw sh starts"
    by simp
  show ?case
    unfolding step Cons.IH by simp
qed

lemma nup_scale_pos:
  assumes "1 \<le> n_cols" and "1 \<le> n_rows"
    and "0 < available_width W n_cols" and "0 < available_height H n_rows"
    and "0 < rect_width first" and "0 < rect_height first"
  shows "0 < nup_scale W H n_cols n_rows first"
proof -
  have a: "0 < (of_int (available_width W n_cols) :: rat) / of_int n_cols"
    using assms(1,3) by simp
  have b: "0 < (of_int (available_height H n_rows) :: rat) / of_int n_rows"
    using assms(2,4) by simp
  from a assms(5) have "0 < (of_int (available_width W n_cols) :: rat) / of_int n_cols /
      rect_width first"
    by (rule divide_pos_pos)
  moreover from b assms(6) have "0 < (of_int (available_height H n_rows) :: rat) / of_int n_rows /
      rect_height first"
    by (rule divide_pos_pos)
  ultimately show ?thesis
    by (simp add: nup_scale_def Let_def)
qed

text \<open>
  C10, as the claim states it, at 57 columns in portrait: the width left for the cells
  is 595 - 40 - 56 * 10 = -5, the scale factor is negative, the rectangle of the first
  cell is empty, and the library refuses to draw into it. The call raises and writes
  nothing.
\<close>

theorem create_nup_too_many_columns:
  "fst (create_nup (disk ''in.pdf'' [a4_page 1]) ''in.pdf'' ''out.pdf'' 57 1 ''portrait'') =
     Inl (ValueError ''rect must be finite and not empty'') \<and>
   saved_paths (events (snd (create_nup (disk ''in.pdf'' [a4_page 1]) ''in.pdf'' ''out.pdf'' 57 1
     ''portrait''))) = []"
proof -
  have lo: "lower ''portrait'' \<noteq> ''landscape''" by code_simp
  have rng: "py_range (Suc 0) 57 = Inr [0]"
    by (simp add: py_range_def range_from.simps)
  have sc: "nup_scale 595 842 57 1 (a4_page 1) < 0"
    by (simp add: nup_scale_def available_width_def available_height_def margin_def
        page_spacing_def a4_page_def rect_width_def rect_height_def Let_def)
  then have "rect_width (a4_page 1) * nup_scale 595 842 57 1 (a4_page 1) < 0"
    by (simp add: a4_page_def rect_width_def mult_less_0_iff)
  then have em: "rect_is_empty (cell_rect (rect_width (a4_page 1) * nup_scale 595 842 57 1 (a4_page 1))
      (rect_height (a4_page 1) * nup_scale 595 842 57 1 (a4_page 1)) 0 0)"
    by (simp add: rect_is_empty_def cell_rect_def Let_def)
  have u: "[0..<nat 57] = 0 # [1..<57]" by (simp add: upt_conv_Cons)
  have cols: "nup_cols [a4_page 1] sheet 0 0 57
      (rect_width (a4_page 1) * nup_scale 595 842 57 1 (a4_page 1))
      (rect_height (a4_page 1) * nup_scale 595 842 57 1 (a4_page 1)) [0..<nat 57] =
      Inl (ValueError ''rect must be finite and not empty'')" for sheet
    unfolding u using em by (simp add: show_pdf_page_def Let_def)
  have nz: "rect_width (a4_page 1) \<noteq> 0" "rect_height (a4_page 1) \<noteq> 0"
    by (simp_all add: a4_page_def rect_width_def rect_height_def)
  show ?thesis
    using lo rng cols nz
    by (simp add: create_nup_def fitz_open_def disk_def stored_def Let_def)
qed

text \<open>
  C10. For an input file of K pages, K at least 1, whose pages have contents and a
  rectangle that is not empty, for at least one column and one row, few enough that the
  width and the height left for the cells are positive (at most 56 columns and 81 rows
  in portrait, 81 and 56 in landscape), and for an output path that the operating system
  lets the call write, \<open>create_nup\<close> saves a document of ceil(K / (n_cols * n_rows))
  sheets. Every sheet has the A4 width and height that the orientation selects. Sheet j
  shows the source pages from number j * n_cols * n_rows on, row by row: the cell in row
  r and column c holds source page j * n_cols * n_rows + r * n_cols + c, if there is
  one, in the rectangle with the corner (20 + c * (sw + 10), 20 + r * (sh + 10)), the
  width sw and the height sh, where sw and sh are the width and the height of the first
  source page times the one scale factor, which is computed from the first source page
  alone. A file with no page fails with IndexError when the first page is read, and
  nothing has been saved.
\<close>

theorem create_nup_sheets:
  assumes "files w input_pdf = Some f" and "input_pdf \<noteq> []"
  shows "(doc f = [] \<longrightarrow>
            fst (create_nup w input_pdf output_pdf n_cols n_rows orientation) = Inl IndexError \<and>
            files (snd (create_nup w input_pdf output_pdf n_cols n_rows orientation)) = files w \<and>
            saved_paths (events (snd (create_nup w input_pdf output_pdf n_cols n_rows
              orientation))) = saved_paths (events w)) \<and>
         (let W = (if lower orientation = ''landscape'' then 842 else 595);
              H = (if lower orientation = ''landscape'' then 595 else 842);
              scale = nup_scale W H n_cols n_rows (hd (doc f));
              sw = rect_width (hd (doc f)) * scale;
              sh = rect_height (hd (doc f)) * scale
          in doc f \<noteq> [] \<and> 1 \<le> n_cols \<and> 1 \<le> n_rows \<and>
             0 < available_width W n_cols \<and> 0 < available_height H n_rows \<and>
             (\<forall>p\<in>set (doc f). has_contents p \<and> 0 < rect_width p \<and> 0 < rect_height p) \<and>
             output_pdf \<noteq> [] \<and> os_write w output_pdf = None \<longrightarrow>
             (\<exists>w' g.
                create_nup w input_pdf output_pdf n_cols n_rows orientation = (Inr (), w') \<and>
                files w' output_pdf = Some g \<and>
                saved_paths (events w') = saved_paths (events w) @ [output_pdf] \<and>
                length (doc g) =
                  nat \<lceil>real (length (doc f)) / real_of_int (n_cols * n_rows)\<rceil> \<and>
                (\<forall>j<length (doc g).
                   doc g ! j =
                     Page None (of_int W) (of_int H) 0
                       (sheet_layout (doc f) sw sh (nat n_cols) (nat n_rows)
                          (j * nat (n_cols * n_rows))) \<and>
                   rect_width (doc g ! j) = of_int W \<and> rect_height (doc g ! j) = of_int H)))"
proof -
  define w1 where "w1 = w\<lparr>events := events w @ [Opened input_pdf]\<rparr>"
  have op: "fitz_open w input_pdf = (Inr (doc f), w1)"
    unfolding w1_def by (rule fitz_open_file [OF assms(2) assms(1)])
  have empty:
    "fst (create_nup w input_pdf output_pdf n_cols n_rows orientation) = Inl IndexError \<and>
     files (snd (create_nup w input_pdf output_pdf n_cols n_rows orientation)) = files w \<and>
     saved_paths (events (snd (create_nup w input_pdf output_pdf n_cols n_rows
       orientation))) = saved_paths (events w)"
    if e: "doc f = []"
    using op e by (simp add: create_nup_def Let_def w1_def saved_paths_append)
  define src where "src = doc f"
  define W :: int where "W = (if lower orientation = ''landscape'' then 842 else 595)"
  define H :: int where "H = (if lower orientation = ''landscape'' then 595 else 842)"
  define scale where "scale = nup_scale W H n_cols n_rows (hd src)"
  define sw where "sw = rect_width (hd src) * scale"
  define sh where "sh = rect_height (hd src) * scale"
  define c where "c = nat (n_cols * n_rows)"
  define N where "N = (length src + c - 1) div c"
  define starts where "starts = map (\<lambda>j. j * c) [0..<N]"
  define sheet where
    "sheet = (\<lambda>i. Page None (of_int W) (of_int H) 0
                     (sheet_layout src sw sh (nat n_cols) (nat n_rows) i))"
  define w' where "w' = store w1 output_pdf (map sheet starts) default_save"
  have sheets:
    "\<exists>w' g.
       create_nup w input_pdf output_pdf n_cols n_rows orientation = (Inr (), w') \<and>
       files w' output_pdf = Some g \<and>
       saved_paths (events w') = saved_paths (events w) @ [output_pdf] \<and>
       length (doc g) = nat \<lceil>real (length src) / real_of_int (n_cols * n_rows)\<rceil> \<and>
       (\<forall>j<length (doc g).
          doc g ! j =
            Page None (of_int W) (of_int H) 0
              (sheet_layout src sw sh (nat n_cols) (nat n_rows) (j * nat (n_cols * n_rows))) \<and>
          rect_width (doc g ! j) = of_int W \<and> rect_height (doc g ! j) = of_int H)"
    if h: "src \<noteq> [] \<and> 1 \<le> n_cols \<and> 1 \<le> n_rows \<and>
           0 < available_width W n_cols \<and> 0 < available_height H n_rows \<and>
           (\<forall>p\<in>set src. has_contents p \<and> 0 < rect_width p \<and> 0 < rect_height p) \<and>
           output_pdf \<noteq> [] \<and> os_write w output_pdf = None"
  proof -
    from h obtain first rest where src: "src = first # rest"
      by (cases src) auto
    from h have pages: "\<forall>p\<in>set src. has_contents p \<and> 0 < rect_width p \<and> 0 < rect_height p"
      by blast
    from pages src have fpos: "0 < rect_width first" "0 < rect_height first" by simp_all
    from h have nc: "1 \<le> n_cols" and nr: "1 \<le> n_rows"
      and aw: "0 < available_width W n_cols" and ah: "0 < available_height H n_rows"
      by blast+
    have scale_pos: "0 < scale"
      unfolding scale_def src list.sel by (rule nup_scale_pos [OF nc nr aw ah fpos])
    have swp: "0 < sw" and shp: "0 < sh"
      using scale_pos fpos by (simp_all add: sw_def sh_def src)
    have nc0: "0 \<le> n_cols" using nc by simp
    from nc nr have pos: "0 < n_cols * n_rows" by simp
    then have c: "0 < c" and cc: "int c = n_cols * n_rows" by (simp_all add: c_def)
    have rng: "py_range (length src) (n_cols * n_rows) = Inr starts"
      using pos c nc nr range_from_eq [of c 0 "length src"]
      by (simp add: py_range_def starts_def N_def c_def)
    have loop: "nup_sheets src [] W H n_cols n_rows sw sh starts = Inr (map sheet starts)"
      unfolding nup_sheets_eq [OF swp shp nc0 pages] sheet_def by simp
    have Npos: "0 < N"
      using c src by (simp add: N_def div_greater_zero_iff)
    then have ne: "map sheet starts \<noteq> []" by (simp add: starts_def)
    have sv: "doc_save w1 [] output_pdf (map sheet starts) default_save = (Inr (), w')"
      unfolding w'_def using h ne by (intro doc_save_ok) (simp_all add: w1_def)
    have nz: "n_cols \<noteq> 0" "n_rows \<noteq> 0" "rect_width first \<noteq> 0" "rect_height first \<noteq> 0"
      using nc nr fpos by simp_all
    have loop': "nup_sheets (first # rest) [] W H n_cols n_rows
        (rect_width first * nup_scale W H n_cols n_rows first)
        (rect_height first * nup_scale W H n_cols n_rows first) starts = Inr (map sheet starts)"
      using loop by (simp add: sw_def sh_def scale_def src)
    have rng': "py_range (Suc (length rest)) (n_cols * n_rows) = Inr starts"
      using rng by (simp add: src)
    have op': "fitz_open w input_pdf = (Inr (first # rest), w1)"
      using op by (simp add: src_def [symmetric] src)
    have run: "create_nup w input_pdf output_pdf n_cols n_rows orientation = (Inr (), w')"
      unfolding create_nup_def Let_def
      by (simp add: op' nz rng' loop' [unfolded W_def H_def] sv)
    define g where "g = \<lparr>doc = map sheet starts, saved_with = default_save\<rparr>"
    have dg: "doc g = map sheet starts" by (simp add: g_def)
    have out: "files w' output_pdf = Some g"
      by (simp add: w'_def files_store g_def)
    have saved: "saved_paths (events w') = saved_paths (events w) @ [output_pdf]"
      by (simp add: w'_def w1_def events_store saved_paths_append)
    have len: "length (doc g) = nat \<lceil>real (length src) / real_of_int (n_cols * n_rows)\<rceil>"
      using ceiling_div_nat [OF c, of "length src"]
      by (simp add: dg starts_def N_def cc [symmetric])
    have each: "\<forall>j<length (doc g).
          doc g ! j =
            Page None (of_int W) (of_int H) 0
              (sheet_layout src sw sh (nat n_cols) (nat n_rows) (j * nat (n_cols * n_rows))) \<and>
          rect_width (doc g ! j) = of_int W \<and> rect_height (doc g ! j) = of_int H"
    proof (intro allI impI)
      fix j assume "j < length (doc g)"
      then have "j < N" by (simp add: dg starts_def)
      then have e: "doc g ! j = sheet (j * c)" by (simp add: dg starts_def)
      show "doc g ! j =
            Page None (of_int W) (of_int H) 0
              (sheet_layout src sw sh (nat n_cols) (nat n_rows) (j * nat (n_cols * n_rows))) \<and>
          rect_width (doc g ! j) = of_int W \<and> rect_height (doc g ! j) = of_int H"
        unfolding e by (simp add: sheet_def c_def rect_width_def rect_height_def)
    qed
    from run out saved len each show ?thesis by blast
  qed
  have sheets': "let W = (if lower orientation = ''landscape'' then 842 else 595);
              H = (if lower orientation = ''landscape'' then 595 else 842);
              scale = nup_scale W H n_cols n_rows (hd (doc f));
              sw = rect_width (hd (doc f)) * scale;
              sh = rect_height (hd (doc f)) * scale
          in doc f \<noteq> [] \<and> 1 \<le> n_cols \<and> 1 \<le> n_rows \<and>
             0 < available_width W n_cols \<and> 0 < available_height H n_rows \<and>
             (\<forall>p\<in>set (doc f). has_contents p \<and> 0 < rect_width p \<and> 0 < rect_height p) \<and>
             output_pdf \<noteq> [] \<and> os_write w output_pdf = None \<longrightarrow>
             (\<exists>w' g.
                create_nup w input_pdf output_pdf n_cols n_rows orientation = (Inr (), w') \<and>
                files w' output_pdf = Some g \<and>
                saved_paths (events w') = saved_paths (events w) @ [output_pdf] \<and>
                length (doc g) =
                  nat \<lceil>real (length (doc f)) / real_of_int (n_cols * n_rows)\<rceil> \<and>
                (\<forall>j<length (doc g).
                   doc g ! j =
                     Page None (of_int W) (of_int H) 0
                       (sheet_layout (doc f) sw sh (nat n_cols) (nat n_rows)
                          (j * nat (n_cols * n_rows))) \<and>
                   rect_width (doc g ! j) = of_int W \<and> rect_height (doc g ! j) = of_int H))"
    using sheets unfolding Let_def W_def H_def sw_def sh_def scale_def src_def by blast
  from empty sheets' show ?thesis by blast
qed

lemma lower_Landscape: "lower ''Landscape'' = ''landscape''"
  by code_simp

theorem create_nup_sheets_witness:
  "files (disk ''in.pdf'' (map a4_page [1, 2, 3, 4, 5])) ''in.pdf'' =
     Some (stored (map a4_page [1, 2, 3, 4, 5])) \<and>
   0 < available_width 842 2 \<and> 0 < available_height 595 2 \<and>
   nup_scale 842 595 2 2 (a4_page 1) = 545 / 1684 \<and>
   (\<exists>w' g. create_nup (disk ''in.pdf'' (map a4_page [1, 2, 3, 4, 5])) ''in.pdf'' ''out.pdf'' 2 2
             ''Landscape'' = (Inr (), w') \<and>
       files w' ''out.pdf'' = Some g \<and>
       length (doc g) = 2 \<and>
       doc g ! 0 =
         Page None 842 595 0
           [ShownPage (20, 20, 20 + 324275 / 1684, 20 + 545 / 2) (a4_page 1),
            ShownPage (30 + 324275 / 1684, 20, 30 + 2 * (324275 / 1684), 20 + 545 / 2) (a4_page 2),
            ShownPage (20, 30 + 545 / 2, 20 + 324275 / 1684, 30 + 545) (a4_page 3),
            ShownPage (30 + 324275 / 1684, 30 + 545 / 2, 30 + 2 * (324275 / 1684), 30 + 545)
              (a4_page 4)] \<and>
       doc g ! 1 =
         Page None 842 595 0
           [ShownPage (20, 20, 20 + 324275 / 1684, 20 + 545 / 2) (a4_page 5)]) \<and>
   fst (create_nup (disk ''in.pdf'' []) ''in.pdf'' ''out.pdf'' 2 2 ''Landscape'') = Inl IndexError \<and>
   saved_paths (events (snd (create_nup (disk ''in.pdf'' []) ''in.pdf'' ''out.pdf'' 2 2
     ''Landscape''))) = []"
proof -
  let ?d = "map a4_page [1, 2, 3, 4, 5]"
  have h1: "files (disk ''in.pdf'' ?d) ''in.pdf'' = Some (stored ?d)"
    by (simp add: disk_def)
  have h0: "''in.pdf'' \<noteq> []" by simp
  have d: "doc (stored ?d) = ?d" by (simp add: stored_def)
  have aw: "0 < available_width 842 2" and ah: "0 < available_height 595 2"
    by (simp_all add: available_width_def available_height_def margin_def page_spacing_def)
  have pages: "\<forall>p\<in>set ?d. has_contents p \<and> 0 < rect_width p \<and> 0 < rect_height p"
    by (simp add: a4_page_def has_contents_def rect_width_def rect_height_def)
  have os: "os_write (disk ''in.pdf'' ?d) ''out.pdf'' = None" by (simp add: disk_def)
  have sc: "nup_scale 842 595 2 2 (a4_page k) = 545 / 1684" for k
    by (simp add: nup_scale_def available_width_def available_height_def margin_def
        page_spacing_def a4_page_def rect_width_def rect_height_def Let_def)
  have sw: "rect_width (a4_page k) * 545 / 1684 = 324275 / 1684"
    and sh: "rect_height (a4_page k) * 545 / 1684 = 545 / 2" for k
    by (simp_all add: a4_page_def rect_width_def rect_height_def)
  have five: "length ?d = 5" by simp
  have two: "nat \<lceil>real (length ?d) / real_of_int (2 * 2)\<rceil> = 2"
    unfolding five using ceiling_div_nat [of 4 5] by simp
  from create_nup_sheets [OF h1 h0, of "''out.pdf''" 2 2 "''Landscape''"]
  have "\<exists>w' g.
      create_nup (disk ''in.pdf'' ?d) ''in.pdf'' ''out.pdf'' 2 2 ''Landscape'' = (Inr (), w') \<and>
      files w' ''out.pdf'' = Some g \<and>
      length (doc g) = nat \<lceil>real (length ?d) / real_of_int (2 * 2)\<rceil> \<and>
      (\<forall>j<length (doc g).
         doc g ! j =
           Page None 842 595 0
             (sheet_layout ?d (324275 / 1684) (545 / 2) (nat 2) (nat 2) (j * nat (2 * 2))))"
    unfolding Let_def lower_Landscape d
    using aw ah pages os by (simp add: sc sw sh) blast
  then obtain w' g where run: "create_nup (disk ''in.pdf'' ?d) ''in.pdf'' ''out.pdf'' 2 2
        ''Landscape'' = (Inr (), w')"
    and out: "files w' ''out.pdf'' = Some g"
    and len: "length (doc g) = nat \<lceil>real (length ?d) / real_of_int (2 * 2)\<rceil>"
    and each: "\<forall>j<length (doc g).
         doc g ! j =
           Page None 842 595 0
             (sheet_layout ?d (324275 / 1684) (545 / 2) (nat 2) (nat 2) (j * nat (2 * 2)))"
    by blast
  from len two have l2: "length (doc g) = 2" by simp
  then have lt: "0 < length (doc g)" "1 < length (doc g)" by simp_all
  have u2: "[0..<2] = [0, Suc 0]" by (simp add: upt_conv_Cons)
  have s0: "doc g ! 0 =
         Page None 842 595 0
           [ShownPage (20, 20, 20 + 324275 / 1684, 20 + 545 / 2) (a4_page 1),
            ShownPage (30 + 324275 / 1684, 20, 30 + 2 * (324275 / 1684), 20 + 545 / 2) (a4_page 2),
            ShownPage (20, 30 + 545 / 2, 20 + 324275 / 1684, 30 + 545) (a4_page 3),
            ShownPage (30 + 324275 / 1684, 30 + 545 / 2, 30 + 2 * (324275 / 1684), 30 + 545)
              (a4_page 4)]"
    using each [rule_format, OF lt(1)]
    by (simp add: sheet_layout_def cell_rect_def margin_def page_spacing_def u2 Let_def)
  have s1: "doc g ! 1 =
         Page None 842 595 0
           [ShownPage (20, 20, 20 + 324275 / 1684, 20 + 545 / 2) (a4_page 5)]"
    using each [rule_format, OF lt(2)]
    by (simp add: sheet_layout_def cell_rect_def margin_def page_spacing_def u2 Let_def)
  have h0': "files (disk ''in.pdf'' []) ''in.pdf'' = Some (stored [])"
    by (simp add: disk_def)
  have e0: "doc (stored []) = []" by (simp add: stored_def)
  from create_nup_sheets [OF h0' h0, of "''out.pdf''" 2 2 "''Landscape''"] e0
  have empty: "fst (create_nup (disk ''in.pdf'' []) ''in.pdf'' ''out.pdf'' 2 2 ''Landscape'') =
        Inl IndexError \<and>
      saved_paths (events (snd (create_nup (disk ''in.pdf'' []) ''in.pdf'' ''out.pdf'' 2 2
        ''Landscape''))) = saved_paths (events (disk ''in.pdf'' []))"
    by simp
  have ev: "saved_paths (events (disk ''in.pdf'' [])) = []" by (simp add: disk_def)
  have concl: "\<exists>w' g. create_nup (disk ''in.pdf'' ?d) ''in.pdf'' ''out.pdf'' 2 2
             ''Landscape'' = (Inr (), w') \<and>
       files w' ''out.pdf'' = Some g \<and>
       length (doc g) = 2 \<and>
       doc g ! 0 =
         Page None 842 595 0
           [ShownPage (20, 20, 20 + 324275 / 1684, 20 + 545 / 2) (a4_page 1),
            ShownPage (30 + 324275 / 1684, 20, 30 + 2 * (324275 / 1684), 20 + 545 / 2) (a4_page 2),
            ShownPage (20, 30 + 545 / 2, 20 + 324275 / 1684, 30 + 545) (a4_page 3),
            ShownPage (30 + 324275 / 1684, 30 + 545 / 2, 30 + 2 * (324275 / 1684), 30 + 545)
              (a4_page 4)] \<and>
       doc g ! 1 =
         Page None 842 595 0
           [ShownPage (20, 20, 20 + 324275 / 1684, 20 + 545 / 2) (a4_page 5)]"
    using run out l2 s0 s1 by blast
  from h1 aw ah sc concl empty ev show ?thesis by simp
qed

section \<open>What the library and the system refuse\<close>

text \<open>The bounds on the columns and rows that leave room for a cell.\<close>

lemma available_width_portrait: "0 < available_width 595 n_cols \<longleftrightarrow> n_cols \<le> 56"
  by (auto simp: available_width_def margin_def page_spacing_def)

lemma available_height_portrait: "0 < available_height 842 n_rows \<longleftrightarrow> n_rows \<le> 81"
  by (auto simp: available_height_def margin_def page_spacing_def)

lemma available_width_landscape: "0 < available_width 842 n_cols \<longleftrightarrow> n_cols \<le> 81"
  by (auto simp: available_width_def margin_def page_spacing_def)

lemma available_height_landscape: "0 < available_height 595 n_rows \<longleftrightarrow> n_rows \<le> 56"
  by (auto simp: available_height_def margin_def page_spacing_def)

text \<open>An output folder with an empty path, or one that is a file, stops \<open>split_pdf\<close>
  before any loop.\<close>

lemma split_pdf_empty_folder_raises:
  "fst (split_pdf (disk ''in.pdf'' [a4_page 1]) ''in.pdf'' [] mode 1 None) =
     Inl (FileNotFoundError []) \<and>
   saved_paths (events (snd (split_pdf (disk ''in.pdf'' [a4_page 1]) ''in.pdf'' [] mode 1
     None))) = []"
  by (simp add: split_pdf_def fitz_open_def makedirs_def disk_def stored_def Let_def)

lemma split_pdf_folder_is_file_raises:
  "fst (split_pdf (disk ''in.pdf'' [a4_page 1]) ''in.pdf'' ''in.pdf'' mode 1 None) =
     Inl (FileExistsError ''in.pdf'') \<and>
   saved_paths (events (snd (split_pdf (disk ''in.pdf'' [a4_page 1]) ''in.pdf'' ''in.pdf'' mode 1
     None))) = []"
  by (simp add: split_pdf_def fitz_open_def makedirs_def disk_def stored_def Let_def)

text \<open>The functions that save the document they opened raise when the output path is
  the input path, and \<open>delete_pages\<close> raises when no page is left.\<close>

lemma rotate_pages_same_path_raises:
  "fst (rotate_pages (disk ''in.pdf'' [a4_page 1]) ''in.pdf'' ''in.pdf'' 90 (PStr ''all'')) =
     Inl (ValueError ''save to original must be incremental'')"
  by (simp add: rotate_pages_def fitz_open_def doc_save_def disk_def stored_def
      select_pages_to_rotate_def)

lemma add_page_numbers_same_path_raises:
  "fst (add_page_numbers plain_format (disk ''in.pdf'' [a4_page 1]) ''in.pdf'' ''in.pdf''
          ''bottom-right'' 10 (0, 0, 0) ''{page}'' 1 (PStr ''all'')) =
     Inl (ValueError ''save to original must be incremental'')"
  by (simp add: add_page_numbers_def fitz_open_def doc_save_def disk_def stored_def
      select_pages_to_number_def plain_format_def lookup_field_def then_append_def
      name_char_def number_point_def insert_text_def draws_nothing_def line_breaks_def
      color_in_range_def str_int_def str_nat.simps digit_char_def Let_def)

lemma delete_pages_all_pages_raises:
  "fst (delete_pages (disk ''in.pdf'' [a4_page 1, a4_page 2]) ''in.pdf'' ''out.pdf'' [1, 2]) =
     Inl (ValueError ''cannot save with zero pages'') \<and>
   saved_paths (events (snd (delete_pages (disk ''in.pdf'' [a4_page 1, a4_page 2]) ''in.pdf''
     ''out.pdf'' [1, 2]))) = []"
  by (simp add: delete_pages_def fitz_open_def doc_save_def delete_page_def disk_def stored_def)

text \<open>A format specification is outside \<open>plain_format\<close>, which says so.\<close>

lemma plain_format_specification:
  "plain_format ''{page:02d}'' [(''page'', 1), (''total'', 2)] = Inl (Unmodelled ''page:02d'')"
  by (simp add: plain_format_def lookup_field_def then_append_def name_char_def)

text \<open>A colour outside the range is refused at the first page to number.\<close>

lemma add_page_numbers_colour_raises:
  "fst (add_page_numbers plain_format (disk ''in.pdf'' [a4_page 1]) ''in.pdf'' ''out.pdf''
          ''bottom-right'' 10 (0, 0, 255) ''{page}'' 1 (PStr ''all'')) =
     Inl (ValueError ''need 1, 3 or 4 color components in range 0 to 1'')"
  by (simp add: add_page_numbers_def fitz_open_def disk_def stored_def
      select_pages_to_number_def plain_format_def lookup_field_def then_append_def
      name_char_def number_point_def insert_text_def draws_nothing_def line_breaks_def
      color_in_range_def str_int_def str_nat.simps digit_char_def Let_def)

end
